theory Spec2Isabelle
  imports Main "HOL-Library.Word"
begin

unbundle bit_operations_syntax

section \<open>The ring buffer of queue/ring.go\<close>

text \<open>
  A shallow embedding of \<^verbatim>\<open>src/queue/ring.go\<close>: the bounded queue with per-slot
  sequence numbers. The embedding is sequential: one goroutine calls the operations one
  after the other, so an atomic load is a field read, an atomic store a field update and
  a compare-and-swap an equality test followed by an update. Go's \<^verbatim>\<open>uint64\<close> is
  \<^typ>\<open>64 word\<close> (arithmetic wraps), \<^verbatim>\<open>time.Duration\<close> is a signed 64-bit
  value read with \<open><s\<close> and \<open>\<le>s\<close>, and \<^verbatim>\<open>interface{}\<close> is \<^typ>\<open>'a option\<close> with
  \<^term>\<open>None\<close> for \<^verbatim>\<open>nil\<close>.
\<close>

type_synonym uint64 = "64 word"
type_synonym duration = "64 word"

subsection \<open>roundUp\<close>

definition roundUp :: "uint64 \<Rightarrow> uint64" where
  "roundUp v0 =
     (let v = v0 - 1;
          v = v OR drop_bit 1 v;
          v = v OR drop_bit 2 v;
          v = v OR drop_bit 4 v;
          v = v OR drop_bit 8 v;
          v = v OR drop_bit 16 v;
          v = v OR drop_bit 32 v
      in v + 1)"

subsection \<open>The data\<close>

record 'a node =
  position :: uint64
  data :: "'a option"

text \<open>
  The padding fields of the struct carry no behaviour and are left out. The field
  \<^verbatim>\<open>mask\<close> is called \<open>mask_rb\<close>, since \<^const>\<open>mask\<close> is a constant of the library.
\<close>

record 'a RingBuffer =
  tail :: uint64
  head :: uint64
  mask_rb :: uint64
  disposed :: uint64
  nodes :: "'a node list"

text \<open>
  Modelled from the spec: \<^verbatim>\<open>ErrDisposed\<close> and \<^verbatim>\<open>ErrTimeout\<close> are declared in a file
  of the package that is not among the sources; they are the two ordinary failures
  \<open>Disposed\<close> and \<open>Timeout\<close>.
\<close>

datatype error = ErrDisposed | ErrTimeout

text \<open>
  A call ends by returning, or by a panic: one of the two \<^verbatim>\<open>panic(...)\<close> statements
  of the source, or the run-time fault of indexing the slice \<^verbatim>\<open>rb.nodes\<close> outside its
  length.
\<close>

datatype fault = Panic string | IndexOutOfRange

datatype 'r outcome = Return 'r | Fault fault

text \<open>How an iteration leaves the \<^verbatim>\<open>switch\<close>: \<^verbatim>\<open>break L\<close>, a panic, or past its end
  with the local counter it then holds.\<close>

datatype switch = Break | Abort | Fall uint64

subsection \<open>Construction\<close>

text \<open>\<^verbatim>\<open>make(nodes, size)\<close> is taken to succeed for every size: memory is not bounded.\<close>

definition init :: "uint64 \<Rightarrow> 'a RingBuffer \<Rightarrow> 'a RingBuffer" where
  "init sz rb =
     (let sz = roundUp sz in
        rb\<lparr>nodes := map (\<lambda>i. \<lparr>position = of_nat i, data = None\<rparr>) [0..<unat sz],
           mask_rb := sz - 1\<rparr>)"

definition NewRingBuffer :: "uint64 \<Rightarrow> 'a RingBuffer" where
  "NewRingBuffer sz =
     init sz \<lparr>tail = 0, head = 0, mask_rb = 0, disposed = 0, nodes = []\<rparr>"

subsection \<open>put, Put and Offer\<close>

definition set_data :: "nat \<Rightarrow> 'a option \<Rightarrow> 'a RingBuffer \<Rightarrow> 'a RingBuffer" where
  "set_data i v rb = rb\<lparr>nodes := (nodes rb)[i := (nodes rb ! i)\<lparr>data := v\<rparr>]\<rparr>"

definition set_position :: "nat \<Rightarrow> uint64 \<Rightarrow> 'a RingBuffer \<Rightarrow> 'a RingBuffer" where
  "set_position i v rb = rb\<lparr>nodes := (nodes rb)[i := (nodes rb ! i)\<lparr>position := v\<rparr>]\<rparr>"

text \<open>The \<^verbatim>\<open>switch\<close> of \<^verbatim>\<open>put\<close> on the slot \<open>i\<close>, with the local \<open>tail\<close> in \<open>t\<close>.\<close>

definition put_switch :: "nat \<Rightarrow> uint64 \<Rightarrow> 'a RingBuffer \<Rightarrow> switch \<times> 'a RingBuffer" where
  "put_switch i t rb =
     (let pos = position (nodes rb ! i);
          diff = pos - t
      in if diff = 0 then
           (if tail rb = t then (Break, rb\<lparr>tail := t + 1\<rparr>) else (Fall t, rb))
         else if diff < 0 then (Abort, rb)
         else (Fall (tail rb), rb))"

text \<open>
  The loop of \<^verbatim>\<open>put\<close>. The first argument bounds the number of iterations; \<^term>\<open>None\<close>
  says that the call has not returned within them.
\<close>

fun put_loop ::
  "nat \<Rightarrow> 'a option \<Rightarrow> bool \<Rightarrow> uint64 \<Rightarrow> 'a RingBuffer \<Rightarrow>
     ((bool \<times> error option) outcome \<times> 'a RingBuffer) option" where
  "put_loop 0 item offer t rb = None"
| "put_loop (Suc k) item offer t rb =
     (if disposed rb = 1 then Some (Return (False, Some ErrDisposed), rb)
      else
        let i = unat (t AND mask_rb rb) in
        if length (nodes rb) \<le> i then Some (Fault IndexOutOfRange, rb)
        else
          (case put_switch i t rb of
             (Break, rb1) \<Rightarrow>
               Some (Return (True, None), set_position i (t + 1) (set_data i item rb1))
           | (Abort, rb1) \<Rightarrow>
               Some (Fault (Panic ''Ring buffer in a compromised state during a put operation.''), rb1)
           | (Fall t1, rb1) \<Rightarrow>
               if offer then Some (Return (False, None), rb1)
               else put_loop k item offer t1 rb1))"

definition put ::
  "nat \<Rightarrow> 'a option \<Rightarrow> bool \<Rightarrow> 'a RingBuffer \<Rightarrow>
     ((bool \<times> error option) outcome \<times> 'a RingBuffer) option" where
  "put fuel item offer rb = put_loop fuel item offer (tail rb) rb"

definition Put ::
  "nat \<Rightarrow> 'a option \<Rightarrow> 'a RingBuffer \<Rightarrow> (error option outcome \<times> 'a RingBuffer) option" where
  "Put fuel item rb =
     (case put fuel item False rb of
        None \<Rightarrow> None
      | Some (Return (_, err), rb1) \<Rightarrow> Some (Return err, rb1)
      | Some (Fault f, rb1) \<Rightarrow> Some (Fault f, rb1))"

definition Offer ::
  "nat \<Rightarrow> 'a option \<Rightarrow> 'a RingBuffer \<Rightarrow>
     ((bool \<times> error option) outcome \<times> 'a RingBuffer) option" where
  "Offer fuel item rb = put fuel item True rb"

subsection \<open>Poll and Get\<close>

definition poll_switch :: "nat \<Rightarrow> uint64 \<Rightarrow> 'a RingBuffer \<Rightarrow> switch \<times> 'a RingBuffer" where
  "poll_switch i pos rb =
     (let seq = position (nodes rb ! i);
          dif = seq - (pos + 1)
      in if dif = 0 then
           (if head rb = pos then (Break, rb\<lparr>head := pos + 1\<rparr>) else (Fall pos, rb))
         else if dif < 0 then (Abort, rb)
         else (Fall (head rb), rb))"

text \<open>
  The loop of \<^verbatim>\<open>Poll\<close>. The clock is a parameter: \<open>since n\<close> is what
  \<^verbatim>\<open>time.Since(start)\<close> gives in iteration \<open>n\<close> of the loop. It is read only where
  the source reads it, behind \<^verbatim>\<open>timeout > 0\<close>.
\<close>

fun poll_loop ::
  "nat \<Rightarrow> duration \<Rightarrow> (nat \<Rightarrow> duration) \<Rightarrow> nat \<Rightarrow> uint64 \<Rightarrow> 'a RingBuffer \<Rightarrow>
     (('a option \<times> error option) outcome \<times> 'a RingBuffer) option" where
  "poll_loop 0 timeout since n pos rb = None"
| "poll_loop (Suc k) timeout since n pos rb =
     (if disposed rb = 1 then Some (Return (None, Some ErrDisposed), rb)
      else
        let i = unat (pos AND mask_rb rb) in
        if length (nodes rb) \<le> i then Some (Fault IndexOutOfRange, rb)
        else
          (case poll_switch i pos rb of
             (Break, rb1) \<Rightarrow>
               Some (Return (data (nodes rb1 ! i), None),
                     set_position i (pos + mask_rb rb1 + 1) (set_data i None rb1))
           | (Abort, rb1) \<Rightarrow>
               Some (Fault (Panic ''Ring buffer in compromised state during a get operation.''), rb1)
           | (Fall pos1, rb1) \<Rightarrow>
               if 0 <s timeout \<and> timeout \<le>s since n
               then Some (Return (None, Some ErrTimeout), rb1)
               else poll_loop k timeout since (Suc n) pos1 rb1))"

definition Poll ::
  "nat \<Rightarrow> duration \<Rightarrow> (nat \<Rightarrow> duration) \<Rightarrow> 'a RingBuffer \<Rightarrow>
     (('a option \<times> error option) outcome \<times> 'a RingBuffer) option" where
  "Poll fuel timeout since rb = poll_loop fuel timeout since 0 (head rb) rb"

definition Get ::
  "nat \<Rightarrow> (nat \<Rightarrow> duration) \<Rightarrow> 'a RingBuffer \<Rightarrow>
     (('a option \<times> error option) outcome \<times> 'a RingBuffer) option" where
  "Get fuel since rb = Poll fuel 0 since rb"

subsection \<open>Len, Cap, Dispose and IsDisposed\<close>

definition Len :: "'a RingBuffer \<Rightarrow> uint64" where
  "Len rb = tail rb - head rb"

definition Cap :: "'a RingBuffer \<Rightarrow> uint64" where
  "Cap rb = of_nat (length (nodes rb))"

definition Dispose :: "'a RingBuffer \<Rightarrow> 'a RingBuffer" where
  "Dispose rb = (if disposed rb = 0 then rb\<lparr>disposed := 1\<rparr> else rb)"

definition IsDisposed :: "'a RingBuffer \<Rightarrow> bool" where
  "IsDisposed rb \<longleftrightarrow> disposed rb = 1"

subsection \<open>Sequences of calls\<close>

text \<open>
  The calls that change the buffer, and the states one goroutine reaches by issuing them
  in turn. A call that does not return within the bound ends the sequence (\<^term>\<open>None\<close>).
  A call that panics leaves the buffer as it was when the panic was raised. \<^verbatim>\<open>Get\<close>
  reads no clock, so its call carries none and runs on \<open>still\<close>.
\<close>

text \<open>A clock that never advances.\<close>

definition still :: "nat \<Rightarrow> duration" where
  "still n = 0"

datatype 'a call =
    PutC "'a option"
  | OfferC "'a option"
  | GetC
  | PollC duration "nat \<Rightarrow> duration"
  | DisposeC

fun step :: "nat \<Rightarrow> 'a call \<Rightarrow> 'a RingBuffer \<Rightarrow> 'a RingBuffer option" where
  "step fuel (PutC x) rb = map_option snd (Put fuel x rb)"
| "step fuel (OfferC x) rb = map_option snd (Offer fuel x rb)"
| "step fuel GetC rb = map_option snd (Get fuel still rb)"
| "step fuel (PollC timeout since) rb = map_option snd (Poll fuel timeout since rb)"
| "step fuel DisposeC rb = Some (Dispose rb)"

fun run :: "nat \<Rightarrow> 'a call list \<Rightarrow> 'a RingBuffer \<Rightarrow> 'a RingBuffer option" where
  "run fuel [] rb = Some rb"
| "run fuel (c # cs) rb =
     (case step fuel c rb of None \<Rightarrow> None | Some rb1 \<Rightarrow> run fuel cs rb1)"

subsection \<open>Batches of calls\<close>

text \<open>
  \<open>put_all\<close> calls \<^verbatim>\<open>Put\<close> on each value of a list in turn and \<open>get_n\<close> calls
  \<^verbatim>\<open>Get\<close> \<open>n\<close> times; both collect what the calls return.
\<close>

fun put_all ::
  "nat \<Rightarrow> 'a option list \<Rightarrow> 'a RingBuffer \<Rightarrow> (error option outcome list \<times> 'a RingBuffer) option" where
  "put_all fuel [] rb = Some ([], rb)"
| "put_all fuel (x # xs) rb =
     (case Put fuel x rb of
        None \<Rightarrow> None
      | Some (r, rb1) \<Rightarrow>
          (case put_all fuel xs rb1 of
             None \<Rightarrow> None
           | Some (rs, rb2) \<Rightarrow> Some (r # rs, rb2)))"

fun get_n ::
  "nat \<Rightarrow> (nat \<Rightarrow> duration) \<Rightarrow> nat \<Rightarrow> 'a RingBuffer \<Rightarrow>
     (('a option \<times> error option) outcome list \<times> 'a RingBuffer) option" where
  "get_n fuel since 0 rb = Some ([], rb)"
| "get_n fuel since (Suc n) rb =
     (case Get fuel since rb of
        None \<Rightarrow> None
      | Some (r, rb1) \<Rightarrow>
          (case get_n fuel since n rb1 of
             None \<Rightarrow> None
           | Some (rs, rb2) \<Rightarrow> Some (r # rs, rb2)))"

subsection \<open>Notions of the specification\<close>



subsection \<open>The invariant of the sequential buffer\<close>

text \<open>
  \<open>slot_of rb p\<close> is the index \<^verbatim>\<open>p & rb.mask\<close> of the slot that serves position \<open>p\<close>.
  The invariant: the capacity is a power of two below \<open>2 ^ 64\<close>, the mask is the capacity
  minus one, at most capacity many values are queued, the slot \<open>d\<close> places after the
  head holds sequence number \<open>head + d + 1\<close> when it is queued and \<open>head + d\<close> with no
  value when it is free. \<open>queued\<close> lists the values between head and tail, oldest first.
\<close>

definition slot_of :: "'a RingBuffer \<Rightarrow> uint64 \<Rightarrow> nat" where
  "slot_of rb p = unat (p AND mask_rb rb)"

definition rb_inv :: "'a RingBuffer \<Rightarrow> bool" where
  "rb_inv rb \<longleftrightarrow>
     (\<exists>k\<in>{..<64}. length (nodes rb) = 2 ^ k) \<and>
     mask_rb rb = of_nat (length (nodes rb)) - 1 \<and>
     unat (tail rb - head rb) \<le> length (nodes rb) \<and>
     (\<forall>d\<in>{..<length (nodes rb)}.
        let n = nodes rb ! slot_of rb (head rb + of_nat d) in
          if d < unat (tail rb - head rb) then position n = head rb + of_nat d + 1
          else position n = head rb + of_nat d \<and> data n = None)"

definition queued :: "'a RingBuffer \<Rightarrow> 'a option list" where
  "queued rb =
     map (\<lambda>d. data (nodes rb ! slot_of rb (head rb + of_nat d))) [0..<unat (tail rb - head rb)]"

section \<open>Properties\<close>

subsection \<open>The switch and what a call leaves alone\<close>

text \<open>
  Neither \<^verbatim>\<open>switch\<close> is ever left through its panic: the difference it tests is a
  \<^typ>\<open>uint64\<close>, and no \<^typ>\<open>uint64\<close> is below 0. What remains is a test for equality.
\<close>

lemma put_switch_not_Abort: "fst (put_switch i t rb) \<noteq> Abort"
  by (simp add: put_switch_def Let_def)

lemma poll_switch_not_Abort: "fst (poll_switch i pos rb) \<noteq> Abort"
  by (simp add: poll_switch_def Let_def)

lemma put_switch_cases:
  "put_switch i t rb =
     (if position (nodes rb ! i) = t then
        (if tail rb = t then (Break, rb\<lparr>tail := t + 1\<rparr>) else (Fall t, rb))
      else (Fall (tail rb), rb))"
  by (simp add: put_switch_def Let_def)

lemma poll_switch_cases:
  "poll_switch i pos rb =
     (if position (nodes rb ! i) = pos + 1 then
        (if head rb = pos then (Break, rb\<lparr>head := pos + 1\<rparr>) else (Fall pos, rb))
      else (Fall (head rb), rb))"
  by (simp add: poll_switch_def Let_def)

text \<open>A put never touches head, a poll never touches tail, and neither touches the
  disposed flag, the mask or the number of slots.\<close>

lemma put_loop_frame:
  "put_loop k item offer t rb = Some (r, rb') \<Longrightarrow>
     disposed rb' = disposed rb \<and> mask_rb rb' = mask_rb rb \<and>
     length (nodes rb') = length (nodes rb) \<and> head rb' = head rb"
proof (induction k arbitrary: t)
  case 0
  then show ?case by simp
next
  case (Suc k)
  then show ?case
    by (auto simp: put_switch_cases set_data_def set_position_def Let_def split: if_splits)
qed

lemma poll_loop_frame:
  "poll_loop k timeout since n pos rb = Some (r, rb') \<Longrightarrow>
     disposed rb' = disposed rb \<and> mask_rb rb' = mask_rb rb \<and>
     length (nodes rb') = length (nodes rb) \<and> tail rb' = tail rb"
proof (induction k arbitrary: n pos)
  case 0
  then show ?case by simp
next
  case (Suc k)
  then show ?case
    by (auto simp: poll_switch_cases set_data_def set_position_def Let_def split: if_splits)
qed

lemma put_loop_disposed:
  "disposed rb = 1 \<Longrightarrow> put_loop (Suc k) item offer t rb = Some (Return (False, Some ErrDisposed), rb)"
  by simp

lemma poll_loop_disposed:
  "disposed rb = 1 \<Longrightarrow> poll_loop (Suc k) timeout since n pos rb = Some (Return (None, Some ErrDisposed), rb)"
  by simp


subsection \<open>roundUp\<close>

text \<open>
  The six or-shift steps of \<^verbatim>\<open>roundUp\<close> set every bit below the highest set bit of
  \<open>v - 1\<close>: after the step with shift \<open>m\<close>, bit \<open>i\<close> is set exactly when one of the
  \<open>2 * m\<close> bits of \<open>v - 1\<close> from \<open>i\<close> upwards is.
\<close>

lemma or_shift_step:
  fixes w v :: uint64
  assumes "\<And>i. bit w i \<longleftrightarrow> (\<exists>j. i \<le> j \<and> j < i + m \<and> bit v j)"
  shows "bit (w OR drop_bit m w) i \<longleftrightarrow> (\<exists>j. i \<le> j \<and> j < i + 2 * m \<and> bit v j)"
proof -
  have "bit (w OR drop_bit m w) i \<longleftrightarrow> bit w i \<or> bit w (m + i)"
    by (simp add: bit_or_iff bit_drop_bit_eq)
  also have "\<dots> \<longleftrightarrow> (\<exists>j. i \<le> j \<and> j < i + m \<and> bit v j) \<or> (\<exists>j. m + i \<le> j \<and> j < m + i + m \<and> bit v j)"
    by (simp only: assms)
  also have "\<dots> \<longleftrightarrow> (\<exists>j. i \<le> j \<and> j < i + 2 * m \<and> bit v j)"
  proof
    assume "(\<exists>j. i \<le> j \<and> j < i + m \<and> bit v j) \<or> (\<exists>j. m + i \<le> j \<and> j < m + i + m \<and> bit v j)"
    then show "\<exists>j. i \<le> j \<and> j < i + 2 * m \<and> bit v j"
      by (elim disjE exE) (rule_tac x = j in exI, simp)+
  next
    assume "\<exists>j. i \<le> j \<and> j < i + 2 * m \<and> bit v j"
    then obtain j where j: "i \<le> j" "j < i + 2 * m" "bit v j" by blast
    show "(\<exists>j. i \<le> j \<and> j < i + m \<and> bit v j) \<or> (\<exists>j. m + i \<le> j \<and> j < m + i + m \<and> bit v j)"
    proof (cases "j < i + m")
      case True
      with j show ?thesis by blast
    next
      case False
      with j have "m + i \<le> j \<and> j < m + i + m \<and> bit v j" by simp
      then show ?thesis by blast
    qed
  qed
  finally show ?thesis .
qed

lemma bit_roundUp_minus_1:
  "bit (roundUp v0 - 1) i \<longleftrightarrow> (\<exists>j. i \<le> j \<and> bit (v0 - 1) j)"
proof -
  define v where "v = v0 - 1"
  define v1 where "v1 = v OR drop_bit 1 v"
  define v2 where "v2 = v1 OR drop_bit 2 v1"
  define v3 where "v3 = v2 OR drop_bit 4 v2"
  define v4 where "v4 = v3 OR drop_bit 8 v3"
  define v5 where "v5 = v4 OR drop_bit 16 v4"
  define v6 where "v6 = v5 OR drop_bit 32 v5"
  have b0: "bit v i \<longleftrightarrow> (\<exists>j. i \<le> j \<and> j < i + 1 \<and> bit v j)" for i
    by (metis less_add_one le_refl Suc_eq_plus1 less_Suc_eq_le le_antisym)
  have b1: "bit v1 i \<longleftrightarrow> (\<exists>j. i \<le> j \<and> j < i + 2 \<and> bit v j)" for i
    unfolding v1_def using or_shift_step [of v 1 v i, OF b0] by simp
  have b2: "bit v2 i \<longleftrightarrow> (\<exists>j. i \<le> j \<and> j < i + 4 \<and> bit v j)" for i
    unfolding v2_def using or_shift_step [of v1 2 v i, OF b1] by simp
  have b3: "bit v3 i \<longleftrightarrow> (\<exists>j. i \<le> j \<and> j < i + 8 \<and> bit v j)" for i
    unfolding v3_def using or_shift_step [of v2 4 v i, OF b2] by simp
  have b4: "bit v4 i \<longleftrightarrow> (\<exists>j. i \<le> j \<and> j < i + 16 \<and> bit v j)" for i
    unfolding v4_def using or_shift_step [of v3 8 v i, OF b3] by simp
  have b5: "bit v5 i \<longleftrightarrow> (\<exists>j. i \<le> j \<and> j < i + 32 \<and> bit v j)" for i
    unfolding v5_def using or_shift_step [of v4 16 v i, OF b4] by simp
  have b6: "bit v6 i \<longleftrightarrow> (\<exists>j. i \<le> j \<and> j < i + 64 \<and> bit v j)" for i
    unfolding v6_def using or_shift_step [of v5 32 v i, OF b5] by simp
  have "roundUp v0 = v6 + 1"
    by (simp add: roundUp_def Let_def v6_def v5_def v4_def v3_def v2_def v1_def v_def)
  then have "roundUp v0 - 1 = v6" by simp
  moreover have "j < i + 64" if "bit v j" for j
    using bit_imp_le_length [OF that] by simp
  ultimately show ?thesis
    using b6 by (simp only: v_def [symmetric]) blast
qed

lemma bit_imp_ge: fixes w :: uint64 assumes "bit w n" shows "2 ^ n \<le> unat w"
proof (rule ccontr)
  assume "\<not> 2 ^ n \<le> unat w"
  then have "unat w div 2 ^ n = 0" by simp
  then have "\<not> bit (unat w) n" by (simp add: bit_iff_odd)
  with assms show False by (simp add: bit_unsigned_iff)
qed

lemma no_high_bits_less: fixes w :: uint64 assumes "\<And>j. bit w j \<Longrightarrow> j < k" shows "unat w < 2 ^ k"
proof -
  have "take_bit k w = w"
    by (rule bit_word_eqI) (use assms in \<open>auto simp: bit_take_bit_iff\<close>)
  then have "unat w = take_bit k (unat w)"
    by (metis unsigned_take_bit_eq)
  then show ?thesis
    by (metis take_bit_nat_less_exp)
qed

lemma unat_exp64: assumes "k < 64" shows "unat ((2::uint64) ^ k) = 2 ^ k"
proof -
  have "(2::nat) ^ k < 2 ^ 64" using assms by (rule_tac power_strict_increasing) simp_all
  moreover have "(2::uint64) ^ k = of_nat (2 ^ k)" by simp
  ultimately show ?thesis
    by (simp only: unat_of_nat) simp
qed

text \<open>
  So \<open>roundUp v - 1\<close> is the mask of all bits up to the highest set bit \<open>n\<close> of \<open>v - 1\<close>,
  and \<open>roundUp v\<close> is \<open>2 ^ (n + 1)\<close>, which is 0 in 64 bits when \<open>n = 63\<close>.
\<close>

lemma roundUp_structure:
  fixes v :: uint64
  assumes "v - 1 \<noteq> 0"
  obtains n where "n < 64" and "2 ^ n \<le> unat (v - 1)" and "unat (v - 1) < 2 ^ Suc n"
    and "roundUp v = 2 ^ Suc n"
proof -
  define w where "w = v - 1"
  define S where "S = {j. bit w j}"
  have S64: "j < 64" if "j \<in> S" for j
    using that bit_imp_le_length [of w j] by (simp add: S_def)
  then have "S \<subseteq> {..<64}" by blast
  then have fin: "finite S" by (rule finite_subset) simp
  have "S \<noteq> {}"
  proof
    assume "S = {}"
    then have "w = 0" by (intro bit_word_eqI) (simp add: S_def)
    with assms show False by (simp add: w_def)
  qed
  define n where "n = Max S"
  have nS: "n \<in> S" unfolding n_def using fin \<open>S \<noteq> {}\<close> by (rule Max_in)
  have top: "j \<le> n" if "bit w j" for j
    unfolding n_def using fin that by (intro Max_ge) (simp_all add: S_def)
  have n64: "n < 64" using nS by (rule S64)
  have bn: "bit w n" using nS by (simp add: S_def)
  have "roundUp v - 1 = mask (Suc n)"
  proof (rule bit_word_eqI)
    fix i assume "i < LENGTH(64)"
    have "bit (roundUp v - 1) i \<longleftrightarrow> (\<exists>j. i \<le> j \<and> bit w j)"
      by (simp add: bit_roundUp_minus_1 w_def)
    also have "\<dots> \<longleftrightarrow> i \<le> n"
      using top bn by (meson le_trans)
    also have "\<dots> \<longleftrightarrow> bit (mask (Suc n) :: uint64) i"
      using \<open>i < LENGTH(64)\<close> by (auto simp: bit_mask_iff)
    finally show "bit (roundUp v - 1) i \<longleftrightarrow> bit (mask (Suc n) :: uint64) i" .
  qed
  then have "roundUp v = mask (Suc n) + 1"
    by (metis diff_add_cancel)
  then have r: "roundUp v = 2 ^ Suc n"
    by (simp only: inc_mask_eq_exp)
  have lo: "2 ^ n \<le> unat w" using bn by (rule bit_imp_ge)
  have hi: "unat w < 2 ^ Suc n"
    by (rule no_high_bits_less) (use top in \<open>simp add: less_Suc_eq_le\<close>)
  show thesis
    using that [OF n64] lo hi r by (simp add: w_def)
qed

lemma roundUp_one: "roundUp 1 = 1"
  by (simp add: roundUp_def)

lemma roundUp_zero: "roundUp 0 = 0"
  by (simp add: roundUp_def)

lemma roundUp_in_range:
  fixes v :: uint64
  assumes "0 < v" and "v \<le> 2 ^ 63"
  obtains k where "k < 64" and "roundUp v = 2 ^ k" and "unat v \<le> 2 ^ k"
    and "\<forall>j. unat v \<le> 2 ^ j \<longrightarrow> k \<le> j"
proof (cases "v - 1 = 0")
  case True
  then have "v = 1" by simp
  then have "roundUp v = 2 ^ 0" "unat v \<le> 2 ^ 0" by (simp_all add: roundUp_one)
  then show ?thesis using that [of 0] by simp
next
  case False
  then obtain n where n: "n < 64" "2 ^ n \<le> unat (v - 1)" "unat (v - 1) < 2 ^ Suc n"
    "roundUp v = 2 ^ Suc n"
    by (rule roundUp_structure)
  from assms have v0: "v \<noteq> 0" by auto
  then have um: "unat (v - 1) = unat v - 1" by (rule unat_minus_one)
  from v0 have up: "0 < unat v" by (simp add: unat_gt_0)
  from assms(2) have "unat v \<le> 2 ^ 63"
    by (simp add: word_le_nat_alt)
  with um n(2) up have "(2::nat) ^ n < 2 ^ 63" by linarith
  then have "n < 63" by (rule power_less_imp_less_exp [rotated]) simp
  then have k64: "Suc n < 64" by simp
  have le: "unat v \<le> 2 ^ Suc n" using um n(3) by linarith
  have "Suc n \<le> j" if "unat v \<le> 2 ^ j" for j
  proof -
    from that um n(2) up have "(2::nat) ^ n < 2 ^ j" by linarith
    then have "n < j" by (rule power_less_imp_less_exp [rotated]) simp
    then show ?thesis by simp
  qed
  then have least: "\<forall>j. unat v \<le> 2 ^ j \<longrightarrow> Suc n \<le> j" by blast
  show ?thesis using that [OF k64 n(4) le least] .
qed

lemma roundUp_overflow:
  fixes v :: uint64
  assumes "2 ^ 63 < v"
  shows "roundUp v = 0"
proof -
  from assms have v0: "v \<noteq> 0" by auto
  then have um: "unat (v - 1) = unat v - 1" by (rule unat_minus_one)
  from assms have big: "2 ^ 63 < unat v" by (simp add: word_less_nat_alt)
  have "v - 1 \<noteq> 0"
  proof
    assume "v - 1 = 0"
    then have "unat v - 1 = 0" using um by simp
    with big show False by simp
  qed
  then obtain n where n: "n < 64" "2 ^ n \<le> unat (v - 1)" "unat (v - 1) < 2 ^ Suc n"
    "roundUp v = 2 ^ Suc n"
    by (rule roundUp_structure)
  from big um n(3) have "(2::nat) ^ 63 < 2 ^ Suc n" by linarith
  then have "63 < Suc n" by (rule power_less_imp_less_exp [rotated]) simp
  with n(1) have "Suc n = 64" by simp
  with n(4) show ?thesis by simp
qed

subsection \<open>Slot indices\<close>

text \<open>
  With a capacity \<open>2 ^ k\<close> and the mask \<open>2 ^ k - 1\<close>, the slot of position \<open>h + d\<close> is
  \<open>(h + d) mod 2 ^ k\<close>, also when \<open>h + d\<close> wraps around \<open>2 ^ 64\<close>; the slots of
  \<open>h\<close>, \<open>h + 1\<close>, ..., \<open>h + 2 ^ k - 1\<close> are pairwise different.
\<close>

lemma unat_and_pow2_minus_1:
  fixes p :: uint64
  shows "unat (p AND (2 ^ k - 1)) = unat p mod 2 ^ k"
proof -
  have "p AND (2 ^ k - 1) = take_bit k p"
    by (simp add: take_bit_eq_mask mask_eq_exp_minus_1)
  then have "unat (p AND (2 ^ k - 1)) = take_bit k (unat p)"
    by (simp only: unsigned_take_bit_eq)
  then show ?thesis
    by (simp only: take_bit_eq_mod)
qed

lemma unat_add_of_nat:
  fixes h :: uint64
  shows "unat (h + of_nat d) = (unat h + d) mod 2 ^ 64"
  by (simp add: unat_word_ariths unat_of_nat mod_add_right_eq)

lemma slot_of_mod:
  assumes "length (nodes rb) = 2 ^ k" and "k < 64" and "mask_rb rb = of_nat (length (nodes rb)) - 1"
  shows "slot_of rb (h + of_nat d) = (unat h + d) mod 2 ^ k"
proof -
  have "(2::nat) ^ k dvd 2 ^ 64" using assms(2) by (intro le_imp_power_dvd) simp
  then have "(unat h + d) mod 2 ^ 64 mod 2 ^ k = (unat h + d) mod 2 ^ k"
    by (rule mod_mod_cancel)
  then show ?thesis
    by (simp add: slot_of_def assms(1,3) unat_and_pow2_minus_1 unat_add_of_nat)
qed

lemma mod_add_inj_le:
  fixes a d d' m :: nat
  assumes "(a + d) mod m = (a + d') mod m" and "d \<le> d'" and "d' < m"
  shows "d = d'"
proof -
  have "a + d \<le> a + d'" using assms(2) by simp
  then have "m dvd (a + d') - (a + d)"
    using assms(1) mod_eq_dvd_iff_nat [of "a + d" "a + d'" m] by metis
  then have "m dvd d' - d" by simp
  moreover have "d' - d < m" using assms(3) by simp
  ultimately have "d' - d = 0" by (meson dvd_imp_le not_less zero_less_iff_neq_zero)
  with assms(2) show ?thesis by simp
qed

lemma mod_add_inj:
  fixes a d d' m :: nat
  assumes "(a + d) mod m = (a + d') mod m" and "d < m" and "d' < m"
  shows "d = d'"
proof (cases "d \<le> d'")
  case True
  with assms show ?thesis by (intro mod_add_inj_le [of a d m d']) simp_all
next
  case False
  then have "d' \<le> d" by simp
  with assms have "d' = d" by (intro mod_add_inj_le [of a d' m d]) simp_all
  then show ?thesis by simp
qed

lemma slot_of_frame [simp]:
  "slot_of (rb\<lparr>tail := x\<rparr>) p = slot_of rb p"
  "slot_of (rb\<lparr>head := y\<rparr>) p = slot_of rb p"
  "slot_of (rb\<lparr>nodes := ns\<rparr>) p = slot_of rb p"
  "slot_of (rb\<lparr>disposed := z\<rparr>) p = slot_of rb p"
  by (simp_all add: slot_of_def)

lemma rb_inv_pow2:
  assumes "rb_inv rb"
  obtains k where "k < 64" and "length (nodes rb) = 2 ^ k"
  using assms by (auto simp: rb_inv_def)

lemma rb_inv_mask: "rb_inv rb \<Longrightarrow> mask_rb rb = of_nat (length (nodes rb)) - 1"
  by (simp add: rb_inv_def)

lemma rb_inv_len: "rb_inv rb \<Longrightarrow> unat (tail rb - head rb) \<le> length (nodes rb)"
  by (simp add: rb_inv_def)

lemma rb_inv_slots:
  "rb_inv rb \<Longrightarrow> d < length (nodes rb) \<Longrightarrow>
     (if d < unat (tail rb - head rb)
      then position (nodes rb ! slot_of rb (head rb + of_nat d)) = head rb + of_nat d + 1
      else position (nodes rb ! slot_of rb (head rb + of_nat d)) = head rb + of_nat d \<and>
           data (nodes rb ! slot_of rb (head rb + of_nat d)) = None)"
  unfolding rb_inv_def Let_def by blast

lemma rb_inv_queued_slot:
  assumes "rb_inv rb" and "d < unat (tail rb - head rb)"
  shows "position (nodes rb ! slot_of rb (head rb + of_nat d)) = head rb + of_nat d + 1"
proof -
  have "d < length (nodes rb)" using assms rb_inv_len [of rb] by simp
  from rb_inv_slots [OF assms(1) this] assms(2) show ?thesis by simp
qed

lemma rb_inv_free_slot:
  assumes "rb_inv rb" and "unat (tail rb - head rb) \<le> d" and "d < length (nodes rb)"
  shows "position (nodes rb ! slot_of rb (head rb + of_nat d)) = head rb + of_nat d \<and>
     data (nodes rb ! slot_of rb (head rb + of_nat d)) = None"
  using rb_inv_slots [OF assms(1,3)] assms(2) by simp

lemma rb_inv_cap_pos: "rb_inv rb \<Longrightarrow> 0 < length (nodes rb)"
  by (auto simp: rb_inv_def)

lemma rb_inv_cap_lt: "rb_inv rb \<Longrightarrow> length (nodes rb) < 2 ^ 64"
proof -
  assume "rb_inv rb"
  then obtain k where k: "k < 64" "length (nodes rb) = 2 ^ k" by (rule rb_inv_pow2)
  have "(2::nat) ^ k < 2 ^ 64" using k(1) by (intro power_strict_increasing) simp_all
  with k(2) show ?thesis by simp
qed

lemma rb_inv_slot:
  assumes "rb_inv rb"
  shows "slot_of rb (h + of_nat d) = (unat h + d) mod length (nodes rb)"
proof -
  from assms obtain k where k: "k < 64" "length (nodes rb) = 2 ^ k" by (rule rb_inv_pow2)
  show ?thesis
    using slot_of_mod [OF k(2) k(1) rb_inv_mask [OF assms]] k(2) by simp
qed

lemma rb_inv_slot0:
  assumes "rb_inv rb"
  shows "slot_of rb h = unat h mod length (nodes rb)"
  using rb_inv_slot [OF assms, of h 0] by simp

lemma rb_inv_slot_lt: "rb_inv rb \<Longrightarrow> slot_of rb p < length (nodes rb)"
  using rb_inv_cap_pos [of rb] by (simp add: rb_inv_slot0)

lemma rb_inv_slot_inj:
  assumes "rb_inv rb" and "slot_of rb (h + of_nat d) = slot_of rb (h + of_nat d')"
    and "d < length (nodes rb)" and "d' < length (nodes rb)"
  shows "d = d'"
  using assms(2-) by (simp add: rb_inv_slot [OF assms(1)]) (rule mod_add_inj)

lemma rb_inv_slot_wrap:
  assumes "rb_inv rb"
  shows "slot_of rb (h + of_nat (length (nodes rb))) = slot_of rb h"
proof -
  have "slot_of rb (h + of_nat (length (nodes rb))) = (unat h + length (nodes rb)) mod length (nodes rb)"
    by (rule rb_inv_slot [OF assms])
  also have "\<dots> = unat h mod length (nodes rb)" by simp
  also have "\<dots> = slot_of rb h" by (rule rb_inv_slot0 [OF assms, symmetric])
  finally show ?thesis .
qed

lemma unat_succ_len:
  fixes x :: uint64
  assumes "unat x < c" and "c < 2 ^ 64"
  shows "unat (x + 1) = Suc (unat x)"
proof -
  have "unat x + 1 < 2 ^ 64" using assms by simp
  then show ?thesis by (simp add: unat_word_ariths)
qed

subsection \<open>One call on a buffer that satisfies the invariant\<close>

text \<open>
  On a buffer that satisfies the invariant and is not disposed, on one thread: a put with
  room left takes the slot at the tail and appends its value to the queued ones; a poll on
  a buffer that is not empty takes the slot at the head and returns the oldest value; an
  offer on a full buffer of capacity other than 1 returns "not accepted", and a put there
  never returns; a poll on an empty buffer times out or never returns. Each of them
  keeps the invariant.
\<close>

lemma rb_invI:
  assumes "k < 64" and "length (nodes rb) = 2 ^ k"
    and "mask_rb rb = of_nat (length (nodes rb)) - 1"
    and "unat (tail rb - head rb) \<le> length (nodes rb)"
    and "\<And>d. d < unat (tail rb - head rb) \<Longrightarrow>
           position (nodes rb ! slot_of rb (head rb + of_nat d)) = head rb + of_nat d + 1"
    and "\<And>d. unat (tail rb - head rb) \<le> d \<Longrightarrow> d < length (nodes rb) \<Longrightarrow>
           position (nodes rb ! slot_of rb (head rb + of_nat d)) = head rb + of_nat d \<and>
           data (nodes rb ! slot_of rb (head rb + of_nat d)) = None"
  shows "rb_inv rb"
  unfolding rb_inv_def Let_def
  using assms by (intro conjI ballI) (blast, assumption, assumption, simp)

lemma put_loop_free:
  assumes inv: "rb_inv rb"
    and free: "unat (tail rb - head rb) < length (nodes rb)"
    and live: "disposed rb \<noteq> 1"
  shows "\<exists>rb'. put_loop (Suc k) item offer (tail rb) rb = Some (Return (True, None), rb') \<and>
           rb_inv rb' \<and> queued rb' = queued rb @ [item] \<and>
           tail rb' = tail rb + 1 \<and> head rb' = head rb \<and> disposed rb' = disposed rb \<and>
           length (nodes rb') = length (nodes rb)"
proof -
  define L where "L = unat (tail rb - head rb)"
  define i where "i = slot_of rb (tail rb)"
  define rb' where
    "rb' = rb\<lparr>tail := tail rb + 1, nodes := (nodes rb)[i := (nodes rb ! i)\<lparr>data := item, position := tail rb + 1\<rparr>]\<rparr>"
  from inv obtain k0 where k0: "k0 < 64" "length (nodes rb) = 2 ^ k0" by (rule rb_inv_pow2)
  have i_lt: "i < length (nodes rb)" unfolding i_def using inv by (rule rb_inv_slot_lt)
  have tl: "tail rb = head rb + of_nat L" by (simp add: L_def)
  have i_eq: "i = slot_of rb (head rb + of_nat L)" by (simp add: i_def L_def)
  have "position (nodes rb ! slot_of rb (head rb + of_nat L)) = head rb + of_nat L"
    using rb_inv_free_slot [OF inv, of L] free by (simp add: L_def)
  then have pos: "position (nodes rb ! i) = tail rb" by (simp add: i_def L_def)
  have sw: "put_switch i (tail rb) rb = (Break, rb\<lparr>tail := tail rb + 1\<rparr>)"
    by (simp add: put_switch_cases pos)
  have st: "set_position i (tail rb + 1) (set_data i item (rb\<lparr>tail := tail rb + 1\<rparr>)) = rb'"
    using i_lt by (simp add: set_position_def set_data_def rb'_def)
  have run: "put_loop (Suc k) item offer (tail rb) rb = Some (Return (True, None), rb')"
    using live i_lt sw st by (simp add: slot_of_def i_def Let_def)
  have L': "unat (tail rb' - head rb') = Suc L"
  proof -
    have "tail rb' - head rb' = (tail rb - head rb) + 1" by (simp add: rb'_def)
    moreover have "unat ((tail rb - head rb) + 1) = Suc (unat (tail rb - head rb))"
      using free rb_inv_cap_lt [OF inv] by (rule unat_succ_len)
    ultimately show ?thesis by (simp add: L_def)
  qed
  have slot': "slot_of rb' p = slot_of rb p" for p by (simp add: rb'_def slot_of_def)
  have hd': "head rb' = head rb" by (simp add: rb'_def)
  have len': "length (nodes rb') = length (nodes rb)" by (simp add: rb'_def)
  have node_new: "position (nodes rb' ! slot_of rb (head rb + of_nat L)) = tail rb + 1"
    "data (nodes rb' ! slot_of rb (head rb + of_nat L)) = item"
    using i_lt by (simp_all add: rb'_def i_eq [symmetric])
  have node_old: "nodes rb' ! slot_of rb (head rb + of_nat d) = nodes rb ! slot_of rb (head rb + of_nat d)"
    if "d < length (nodes rb)" "d \<noteq> L" for d
  proof -
    have "slot_of rb (head rb + of_nat d) \<noteq> i"
      using rb_inv_slot_inj [OF inv, of "head rb" d L] that free by (auto simp: i_eq L_def)
    then show ?thesis by (simp add: rb'_def)
  qed
  have inv': "rb_inv rb'"
  proof (rule rb_invI [OF k0(1)])
    show "length (nodes rb') = 2 ^ k0" using k0(2) len' by simp
    show "mask_rb rb' = of_nat (length (nodes rb')) - 1"
      using rb_inv_mask [OF inv] by (simp add: rb'_def)
    show "unat (tail rb' - head rb') \<le> length (nodes rb')"
      using free by (simp add: L' len' L_def)
  next
    fix d assume d: "d < unat (tail rb' - head rb')"
    then have dL: "d \<le> L" by (simp add: L')
    show "position (nodes rb' ! slot_of rb' (head rb' + of_nat d)) = head rb' + of_nat d + 1"
    proof (cases "d = L")
      case True
      then show ?thesis using node_new by (simp add: slot' hd' tl)
    next
      case False
      with dL have lt: "d < L" by simp
      then have "d < length (nodes rb)" using free by (simp add: L_def)
      from node_old [OF this False] rb_inv_queued_slot [OF inv, of d] lt
      show ?thesis by (simp add: slot' hd' L_def)
    qed
  next
    fix d assume d: "unat (tail rb' - head rb') \<le> d" "d < length (nodes rb')"
    then have "L < d" "d < length (nodes rb)" by (simp_all add: L' len')
    from node_old [OF this(2)] rb_inv_free_slot [OF inv, of d] this
    show "position (nodes rb' ! slot_of rb' (head rb' + of_nat d)) = head rb' + of_nat d \<and>
          data (nodes rb' ! slot_of rb' (head rb' + of_nat d)) = None"
      by (simp add: slot' hd' L_def)
  qed
  have q: "queued rb' = queued rb @ [item]"
  proof -
    have "queued rb' = map (\<lambda>d. data (nodes rb' ! slot_of rb (head rb + of_nat d))) [0..<Suc L]"
      using L' by (simp add: queued_def slot' hd')
    also have "\<dots> = map (\<lambda>d. data (nodes rb' ! slot_of rb (head rb + of_nat d))) [0..<L] @ [item]"
      using node_new by simp
    also have "map (\<lambda>d. data (nodes rb' ! slot_of rb (head rb + of_nat d))) [0..<L] = queued rb"
      unfolding queued_def L_def [symmetric]
    proof (rule map_cong [OF refl])
      fix d assume "d \<in> set [0..<L]"
      then have "d < length (nodes rb)" "d \<noteq> L" using free by (simp_all add: L_def)
      then show "data (nodes rb' ! slot_of rb (head rb + of_nat d)) =
                 data (nodes rb ! slot_of rb (head rb + of_nat d))"
        by (simp add: node_old)
    qed
    finally show ?thesis .
  qed
  show ?thesis
    using run inv' q len' hd' by (intro exI [of _ rb']) (simp add: rb'_def)
qed

lemma tl_map_upt: "tl (map f [0..<n]) = map (\<lambda>d. f (Suc d)) [0..<n - 1]"
proof (cases n)
  case 0
  then show ?thesis by simp
next
  case (Suc m)
  have "tl (map f [0..<Suc m]) = map f [Suc 0..<Suc m]"
    by (simp add: upt_conv_Cons del: upt_Suc)
  also have "\<dots> = map f (map Suc [0..<m])" by (simp only: map_Suc_upt)
  also have "\<dots> = map (\<lambda>d. f (Suc d)) [0..<m]" by (simp add: comp_def)
  finally show ?thesis using Suc by simp
qed

lemma hd_map_upt: "0 < n \<Longrightarrow> hd (map f [0..<n]) = f 0"
  by (simp add: upt_conv_Cons del: upt_Suc)

lemma poll_loop_nonempty:
  assumes inv: "rb_inv rb"
    and ne: "0 < unat (tail rb - head rb)"
    and live: "disposed rb \<noteq> 1"
  shows "\<exists>rb'. poll_loop (Suc k) timeout since n (head rb) rb =
             Some (Return (hd (queued rb), None), rb') \<and>
           rb_inv rb' \<and> queued rb' = tl (queued rb) \<and>
           head rb' = head rb + 1 \<and> tail rb' = tail rb \<and> disposed rb' = disposed rb \<and>
           length (nodes rb') = length (nodes rb)"
proof -
  define L where "L = unat (tail rb - head rb)"
  define C where "C = length (nodes rb)"
  define i where "i = slot_of rb (head rb)"
  define rb' where
    "rb' = rb\<lparr>head := head rb + 1,
              nodes := (nodes rb)[i := (nodes rb ! i)\<lparr>data := None, position := head rb + mask_rb rb + 1\<rparr>]\<rparr>"
  from inv obtain k0 where k0: "k0 < 64" "length (nodes rb) = 2 ^ k0" by (rule rb_inv_pow2)
  have i_lt: "i < length (nodes rb)" unfolding i_def using inv by (rule rb_inv_slot_lt)
  have LC: "L \<le> C" unfolding L_def C_def using inv by (rule rb_inv_len)
  have Cpos: "0 < C" unfolding C_def using inv by (rule rb_inv_cap_pos)
  have i_eq: "i = slot_of rb (head rb + of_nat 0)" by (simp add: i_def)
  have pos: "position (nodes rb ! i) = head rb + 1"
    using rb_inv_queued_slot [OF inv, of 0] ne by (simp add: i_def)
  have sw: "poll_switch i (head rb) rb = (Break, rb\<lparr>head := head rb + 1\<rparr>)"
    by (simp add: poll_switch_cases pos)
  have st: "set_position i (head rb + mask_rb (rb\<lparr>head := head rb + 1\<rparr>) + 1)
              (set_data i None (rb\<lparr>head := head rb + 1\<rparr>)) = rb'"
    using i_lt by (simp add: set_position_def set_data_def rb'_def)
  have ret: "data (nodes rb ! i) = hd (queued rb)"
    using ne by (simp add: queued_def hd_map_upt i_def)
  have run: "poll_loop (Suc k) timeout since n (head rb) rb =
             Some (Return (hd (queued rb), None), rb')"
    using live i_lt sw st ret by (simp add: slot_of_def i_def Let_def)
  have newpos: "head rb + mask_rb rb + 1 = head rb + of_nat C"
    by (simp add: rb_inv_mask [OF inv] C_def)
  have L': "unat (tail rb' - head rb') = L - 1"
  proof -
    have "tail rb' - head rb' = (tail rb - head rb) - 1" by (simp add: rb'_def)
    moreover have "tail rb - head rb \<noteq> 0" using ne by (metis less_irrefl unat_0)
    ultimately show ?thesis by (simp add: unat_minus_one L_def)
  qed
  have hd': "head rb' + of_nat d = head rb + of_nat (Suc d)" for d
    by (simp add: rb'_def)
  have slotp: "slot_of rb' p = slot_of rb p" for p
    by (simp add: rb'_def slot_of_def)
  have slot': "slot_of rb' (head rb' + of_nat d) = slot_of rb (head rb + of_nat (Suc d))" for d
    by (simp only: hd' slotp)
  have len': "length (nodes rb') = length (nodes rb)" by (simp add: rb'_def)
  have node_new: "position (nodes rb' ! slot_of rb (head rb + of_nat C)) = head rb + of_nat C"
    "data (nodes rb' ! slot_of rb (head rb + of_nat C)) = None"
    using i_lt rb_inv_slot_wrap [OF inv, of "head rb"]
    by (simp_all add: rb'_def i_def C_def newpos [unfolded C_def])
  have node_old: "nodes rb' ! slot_of rb (head rb + of_nat (Suc d)) =
                  nodes rb ! slot_of rb (head rb + of_nat (Suc d))"
    if "Suc d < C" for d
  proof -
    have "slot_of rb (head rb + of_nat (Suc d)) \<noteq> slot_of rb (head rb + of_nat 0)"
      using rb_inv_slot_inj [OF inv, of "head rb" "Suc d" 0] that Cpos by (auto simp: C_def)
    then have "slot_of rb (head rb + of_nat (Suc d)) \<noteq> i" by (simp add: i_def)
    then show ?thesis by (simp add: rb'_def)
  qed
  have inv': "rb_inv rb'"
  proof (rule rb_invI [OF k0(1)])
    show "length (nodes rb') = 2 ^ k0" using k0(2) len' by simp
    show "mask_rb rb' = of_nat (length (nodes rb')) - 1"
      using rb_inv_mask [OF inv] by (simp add: rb'_def)
    show "unat (tail rb' - head rb') \<le> length (nodes rb')"
      using LC by (simp add: L' len' C_def)
  next
    fix d assume d: "d < unat (tail rb' - head rb')"
    then have dL: "Suc d < L" by (simp add: L')
    with LC have "Suc d < C" by simp
    from node_old [OF this] rb_inv_queued_slot [OF inv, of "Suc d"] dL
    show "position (nodes rb' ! slot_of rb' (head rb' + of_nat d)) = head rb' + of_nat d + 1"
      by (simp only: slotp hd' L_def)
  next
    fix d assume d: "unat (tail rb' - head rb') \<le> d" "d < length (nodes rb')"
    then have dL: "L \<le> Suc d" and dC: "Suc d \<le> C" by (simp_all add: L' len' C_def)
    show "position (nodes rb' ! slot_of rb' (head rb' + of_nat d)) = head rb' + of_nat d \<and>
          data (nodes rb' ! slot_of rb' (head rb' + of_nat d)) = None"
    proof (cases "Suc d = C")
      case True
      then show ?thesis using node_new by (simp only: slotp hd')
    next
      case False
      with dC have lt: "Suc d < C" by simp
      from node_old [OF lt] rb_inv_free_slot [OF inv, of "Suc d"] dL lt
      show ?thesis by (simp only: slotp hd' L_def C_def)
    qed
  qed
  have q: "queued rb' = tl (queued rb)"
  proof -
    have "queued rb' = map (\<lambda>d. data (nodes rb' ! slot_of rb (head rb + of_nat (Suc d)))) [0..<L - 1]"
      using L' by (simp add: queued_def slot')
    also have "\<dots> = map (\<lambda>d. data (nodes rb ! slot_of rb (head rb + of_nat (Suc d)))) [0..<L - 1]"
    proof (rule map_cong [OF refl])
      fix d assume "d \<in> set [0..<L - 1]"
      then have "Suc d < C" using LC by simp
      then show "data (nodes rb' ! slot_of rb (head rb + of_nat (Suc d))) =
                 data (nodes rb ! slot_of rb (head rb + of_nat (Suc d)))"
        by (simp only: node_old)
    qed
    also have "\<dots> = tl (queued rb)"
      unfolding queued_def L_def [symmetric] by (rule tl_map_upt [symmetric])
    finally show ?thesis .
  qed
  show ?thesis
    using run inv' q len' by (intro exI [of _ rb']) (simp add: rb'_def)
qed

lemma of_nat_eq_1_small:
  assumes "of_nat c = (1::uint64)" and "c < 2 ^ 64"
  shows "c = 1"
proof -
  have "unat (of_nat c :: uint64) = c" using assms(2) by (simp add: unat_of_nat)
  with assms(1) show ?thesis by simp
qed

lemma put_switch_full:
  assumes inv: "rb_inv rb"
    and full: "unat (tail rb - head rb) = length (nodes rb)"
    and big: "length (nodes rb) \<noteq> 1"
  shows "put_switch (slot_of rb (tail rb)) (tail rb) rb = (Fall (tail rb), rb)"
proof -
  define C where "C = length (nodes rb)"
  have Cpos: "0 < C" unfolding C_def using inv by (rule rb_inv_cap_pos)
  have "tail rb = head rb + of_nat (unat (tail rb - head rb))" by simp
  then have tl: "tail rb = head rb + of_nat C" by (simp only: full C_def)
  have "slot_of rb (tail rb) = slot_of rb (head rb + of_nat 0)"
    using rb_inv_slot_wrap [OF inv, of "head rb"] by (simp add: tl C_def)
  moreover have "position (nodes rb ! slot_of rb (head rb + of_nat 0)) = head rb + of_nat 0 + 1"
    using Cpos full by (intro rb_inv_queued_slot [OF inv]) (simp add: C_def)
  ultimately have pos: "position (nodes rb ! slot_of rb (tail rb)) = head rb + 1" by simp
  have "head rb + 1 \<noteq> tail rb"
  proof
    assume "head rb + 1 = tail rb"
    then have "of_nat C = (1::uint64)" by (simp add: tl)
    then have "C = 1" using rb_inv_cap_lt [OF inv] by (intro of_nat_eq_1_small) (simp_all add: C_def)
    with big show False by (simp add: C_def)
  qed
  then show ?thesis by (simp add: put_switch_cases pos)
qed

lemma put_loop_full_offer:
  assumes "rb_inv rb" and "unat (tail rb - head rb) = length (nodes rb)"
    and "length (nodes rb) \<noteq> 1" and "disposed rb \<noteq> 1"
  shows "put_loop (Suc k) item True (tail rb) rb = Some (Return (False, None), rb)"
  using put_switch_full [OF assms(1-3)] rb_inv_slot_lt [OF assms(1), of "tail rb"] assms(4)
  by (simp add: slot_of_def Let_def)

lemma put_loop_full_blocks:
  assumes "rb_inv rb" and "unat (tail rb - head rb) = length (nodes rb)"
    and "length (nodes rb) \<noteq> 1" and "disposed rb \<noteq> 1"
  shows "put_loop k item False (tail rb) rb = None"
proof (induction k)
  case 0
  show ?case by simp
next
  case (Suc k)
  then show ?case
    using put_switch_full [OF assms(1-3)] rb_inv_slot_lt [OF assms(1), of "tail rb"] assms(4)
    by (simp add: slot_of_def Let_def)
qed

lemma poll_switch_empty:
  assumes inv: "rb_inv rb" and empty: "tail rb = head rb"
  shows "poll_switch (slot_of rb (head rb)) (head rb) rb = (Fall (head rb), rb)"
proof -
  have "position (nodes rb ! slot_of rb (head rb + of_nat 0)) = head rb + of_nat 0"
    using rb_inv_free_slot [OF inv, of 0] rb_inv_cap_pos [OF inv] empty by simp
  then have "position (nodes rb ! slot_of rb (head rb)) = head rb" by simp
  then show ?thesis by (simp add: poll_switch_cases)
qed

lemma poll_loop_empty_step:
  assumes "rb_inv rb" and "tail rb = head rb" and "disposed rb \<noteq> 1"
  shows "poll_loop (Suc k) timeout since n (head rb) rb =
           (if 0 <s timeout \<and> timeout \<le>s since n
            then Some (Return (None, Some ErrTimeout), rb)
            else poll_loop k timeout since (Suc n) (head rb) rb)"
  using poll_switch_empty [OF assms(1,2)] rb_inv_slot_lt [OF assms(1), of "head rb"] assms(3)
  by (simp add: slot_of_def Let_def)

lemma poll_loop_empty_result:
  assumes "rb_inv rb" and "tail rb = head rb" and "disposed rb \<noteq> 1"
    and "poll_loop k timeout since n (head rb) rb = Some (r, rb')"
  shows "rb' = rb \<and> r = Return (None, Some ErrTimeout)"
  using assms(4)
proof (induction k arbitrary: n)
  case 0
  then show ?case by simp
next
  case (Suc k)
  then show ?case
    by (simp only: poll_loop_empty_step [OF assms(1-3)] split: if_splits) auto
qed

subsection \<open>A fresh buffer\<close>

lemma NewRingBuffer_simps:
  "tail (NewRingBuffer sz) = 0" "head (NewRingBuffer sz) = 0" "disposed (NewRingBuffer sz) = 0"
  "mask_rb (NewRingBuffer sz) = roundUp sz - 1"
  "nodes (NewRingBuffer sz) = map (\<lambda>i. \<lparr>position = of_nat i, data = None\<rparr>) [0..<unat (roundUp sz)]"
  by (simp_all add: NewRingBuffer_def init_def Let_def)

lemma NewRingBuffer_length: "length (nodes (NewRingBuffer sz)) = unat (roundUp sz)"
  by (simp add: NewRingBuffer_simps)

lemma Cap_NewRingBuffer: "Cap (NewRingBuffer sz) = roundUp sz"
  by (simp add: Cap_def NewRingBuffer_length)

lemma NewRingBuffer_inv:
  assumes "0 < sz" and "sz \<le> 2 ^ 63"
  shows "rb_inv (NewRingBuffer sz)"
proof -
  from assms obtain k where k: "k < 64" "roundUp sz = 2 ^ k"
    by (rule roundUp_in_range)
  have len: "length (nodes (NewRingBuffer sz :: 'a RingBuffer)) = 2 ^ k"
    by (simp add: NewRingBuffer_length k unat_exp64)
  have msk: "mask_rb (NewRingBuffer sz :: 'a RingBuffer) = of_nat (length (nodes (NewRingBuffer sz :: 'a RingBuffer))) - 1"
    by (simp add: len) (simp add: NewRingBuffer_simps k)
  show ?thesis
  proof (rule rb_invI [OF k(1) len msk])
    show "unat (tail (NewRingBuffer sz) - head (NewRingBuffer sz)) \<le> length (nodes (NewRingBuffer sz))"
      by (simp add: NewRingBuffer_simps(1,2))
  next
    fix d assume "d < unat (tail (NewRingBuffer sz) - head (NewRingBuffer sz))"
    then show "position (nodes (NewRingBuffer sz) ! slot_of (NewRingBuffer sz) (head (NewRingBuffer sz) + of_nat d)) =
               head (NewRingBuffer sz) + of_nat d + 1"
      by (simp add: NewRingBuffer_simps(1,2))
  next
    fix d assume d: "d < length (nodes (NewRingBuffer sz :: 'a RingBuffer))"
    have "slot_of (NewRingBuffer sz :: 'a RingBuffer) (0 + of_nat d) = (unat (0::uint64) + d) mod 2 ^ k"
      by (rule slot_of_mod [OF len k(1) msk])
    then have sl: "slot_of (NewRingBuffer sz :: 'a RingBuffer) (of_nat d) = d"
      using d len by simp
    have "d < unat (roundUp sz)" using d by (simp add: NewRingBuffer_length)
    then have "nodes (NewRingBuffer sz :: 'a RingBuffer) ! d = \<lparr>position = of_nat d, data = None\<rparr>"
      by (simp add: NewRingBuffer_simps)
    then show "position (nodes (NewRingBuffer sz :: 'a RingBuffer) ! slot_of (NewRingBuffer sz :: 'a RingBuffer) (head (NewRingBuffer sz :: 'a RingBuffer) + of_nat d)) =
               head (NewRingBuffer sz :: 'a RingBuffer) + of_nat d \<and>
          data (nodes (NewRingBuffer sz :: 'a RingBuffer) ! slot_of (NewRingBuffer sz :: 'a RingBuffer) (head (NewRingBuffer sz :: 'a RingBuffer) + of_nat d)) = None"
      by (simp add: NewRingBuffer_simps(2) sl)
  qed
qed

lemma NewRingBuffer_empty:
  assumes "sz = 0 \<or> 2 ^ 63 < sz"
  shows "nodes (NewRingBuffer sz) = []" and "mask_rb (NewRingBuffer sz) = - 1"
proof -
  have "roundUp sz = 0" using assms roundUp_zero roundUp_overflow by blast
  then show "nodes (NewRingBuffer sz) = []" and "mask_rb (NewRingBuffer sz) = - 1"
    by (simp_all add: NewRingBuffer_simps)
qed

lemma queued_NewRingBuffer: "queued (NewRingBuffer sz) = []"
  by (simp add: queued_def NewRingBuffer_simps(1,2))

lemma length_queued: "length (queued rb) = unat (tail rb - head rb)"
  by (simp add: queued_def)

subsection \<open>Sequences and batches of calls\<close>

lemma Put_SomeD:
  "Put fuel item rb = Some (r, rb') \<Longrightarrow> \<exists>r0. put_loop fuel item False (tail rb) rb = Some (r0, rb')"
  by (auto simp: Put_def put_def split: option.splits prod.splits outcome.splits)

lemma put_loop_inv:
  assumes inv: "rb_inv rb" and big: "length (nodes rb) \<noteq> 1"
    and run: "put_loop k item offer (tail rb) rb = Some (r, rb')"
  shows "rb_inv rb' \<and> head rb' = head rb \<and>
         (tail rb' = tail rb \<or> tail rb' = tail rb + 1)"
proof (cases k)
  case 0
  with run show ?thesis by simp
next
  case (Suc k')
  show ?thesis
  proof (cases "disposed rb = 1")
    case True
    with run Suc inv show ?thesis by simp
  next
    case live: False
    show ?thesis
    proof (cases "unat (tail rb - head rb) < length (nodes rb)")
      case True
      from put_loop_free [OF inv True live, of k' item offer] run Suc
      show ?thesis by auto
    next
      case False
      with rb_inv_len [OF inv] have full: "unat (tail rb - head rb) = length (nodes rb)" by simp
      show ?thesis
      proof (cases offer)
        case True
        with put_loop_full_offer [OF inv full big live, of k' item] run Suc inv
        show ?thesis by simp
      next
        case False
        with put_loop_full_blocks [OF inv full big live, of k item] run
        show ?thesis by simp
      qed
    qed
  qed
qed

lemma poll_loop_inv:
  assumes inv: "rb_inv rb"
    and run: "poll_loop k timeout since n (head rb) rb = Some (r, rb')"
  shows "rb_inv rb' \<and> tail rb' = tail rb \<and>
         (head rb' = head rb \<or> head rb' = head rb + 1 \<and> tail rb \<noteq> head rb)"
proof (cases k)
  case 0
  with run show ?thesis by simp
next
  case (Suc k')
  show ?thesis
  proof (cases "disposed rb = 1")
    case True
    with run Suc inv show ?thesis by simp
  next
    case live: False
    show ?thesis
    proof (cases "tail rb = head rb")
      case True
      from poll_loop_empty_result [OF inv True live run] inv show ?thesis by simp
    next
      case False
      then have "tail rb - head rb \<noteq> 0" by simp
      then have ne: "0 < unat (tail rb - head rb)" by (simp add: unat_gt_0)
      from poll_loop_nonempty [OF inv ne live, of k' timeout since n] run Suc False
      show ?thesis by auto
    qed
  qed
qed

lemma rb_inv_disposed_update: "rb_inv (rb\<lparr>disposed := z\<rparr>) = rb_inv rb"
  by (simp add: rb_inv_def)

lemma rb_inv_Dispose: "rb_inv rb \<Longrightarrow> rb_inv (Dispose rb)"
  by (simp add: Dispose_def rb_inv_disposed_update)

lemma Dispose_frame:
  "tail (Dispose rb) = tail rb" "head (Dispose rb) = head rb" "mask_rb (Dispose rb) = mask_rb rb"
  "nodes (Dispose rb) = nodes rb"
  by (simp_all add: Dispose_def)

lemma step_inv:
  assumes inv: "rb_inv rb" and big: "length (nodes rb) \<noteq> 1"
    and st: "step fuel c rb = Some rb'"
  shows "rb_inv rb' \<and> length (nodes rb') = length (nodes rb) \<and>
         (head rb' = head rb \<and> tail rb' = tail rb \<or>
          head rb' = head rb \<and> tail rb' = tail rb + 1 \<or>
          head rb' = head rb + 1 \<and> tail rb' = tail rb \<and> tail rb \<noteq> head rb)"
proof (cases c)
  case (PutC x)
  with st obtain r where "Put fuel x rb = Some (r, rb')" by auto
  then obtain r0 where r0: "put_loop fuel x False (tail rb) rb = Some (r0, rb')"
    using Put_SomeD by blast
  from put_loop_inv [OF inv big r0] put_loop_frame [OF r0] show ?thesis by auto
next
  case (OfferC x)
  with st obtain r where r: "put_loop fuel x True (tail rb) rb = Some (r, rb')"
    by (auto simp: Offer_def put_def)
  from put_loop_inv [OF inv big r] put_loop_frame [OF r] show ?thesis by auto
next
  case GetC
  with st obtain r where r: "poll_loop fuel 0 still 0 (head rb) rb = Some (r, rb')"
    by (auto simp: Get_def Poll_def)
  from poll_loop_inv [OF inv r] poll_loop_frame [OF r] show ?thesis by auto
next
  case (PollC timeout since)
  with st obtain r where r: "poll_loop fuel timeout since 0 (head rb) rb = Some (r, rb')"
    by (auto simp: Poll_def)
  from poll_loop_inv [OF inv r] poll_loop_frame [OF r] show ?thesis by auto
next
  case DisposeC
  with st have "rb' = Dispose rb" by simp
  then show ?thesis using rb_inv_Dispose [OF inv] by (simp add: Dispose_frame)
qed

lemma run_inv:
  assumes "rb_inv rb" and "length (nodes rb) \<noteq> 1" and "run fuel cs rb = Some rb'"
  shows "rb_inv rb' \<and> length (nodes rb') = length (nodes rb)"
  using assms
proof (induction cs arbitrary: rb)
  case Nil
  then show ?case by simp
next
  case (Cons c cs)
  from Cons.prems(3) obtain rb1 where s: "step fuel c rb = Some rb1" and r: "run fuel cs rb1 = Some rb'"
    by (auto split: option.splits)
  from step_inv [OF Cons.prems(1,2) s] have "rb_inv rb1" "length (nodes rb1) = length (nodes rb)"
    by simp_all
  with Cons.IH [OF _ _ r] Cons.prems(2) show ?case by simp
qed


lemma Put_free:
  assumes "rb_inv rb" and "unat (tail rb - head rb) < length (nodes rb)" and "disposed rb \<noteq> 1"
  shows "\<exists>rb'. Put (Suc k) item rb = Some (Return None, rb') \<and>
           rb_inv rb' \<and> queued rb' = queued rb @ [item] \<and>
           tail rb' = tail rb + 1 \<and> head rb' = head rb \<and> disposed rb' = disposed rb \<and>
           length (nodes rb') = length (nodes rb)"
  using put_loop_free [OF assms, of k item False] by (auto simp: Put_def put_def)

lemma Get_nonempty:
  assumes "rb_inv rb" and "0 < unat (tail rb - head rb)" and "disposed rb \<noteq> 1"
  shows "\<exists>rb'. Get (Suc k) since rb = Some (Return (hd (queued rb), None), rb') \<and>
           rb_inv rb' \<and> queued rb' = tl (queued rb) \<and>
           head rb' = head rb + 1 \<and> tail rb' = tail rb \<and> disposed rb' = disposed rb \<and>
           length (nodes rb') = length (nodes rb)"
  using poll_loop_nonempty [OF assms, of k 0 since 0] by (simp add: Get_def Poll_def)

lemma put_all_ok:
  assumes "rb_inv rb" and "disposed rb \<noteq> 1"
    and "length (queued rb) + length xs \<le> length (nodes rb)"
  shows "\<exists>rb'. put_all (Suc k) xs rb = Some (map (\<lambda>x. Return None) xs, rb') \<and>
           rb_inv rb' \<and> queued rb' = queued rb @ xs \<and> disposed rb' = disposed rb \<and>
           length (nodes rb') = length (nodes rb)"
  using assms
proof (induction xs arbitrary: rb)
  case Nil
  then show ?case by simp
next
  case (Cons x xs)
  from Cons.prems(3) have "unat (tail rb - head rb) < length (nodes rb)"
    by (simp add: length_queued)
  from Put_free [OF Cons.prems(1) this Cons.prems(2), of k x]
  obtain rb1 where p: "Put (Suc k) x rb = Some (Return None, rb1)" and i1: "rb_inv rb1"
    and q1: "queued rb1 = queued rb @ [x]" and d1: "disposed rb1 = disposed rb"
    and l1: "length (nodes rb1) = length (nodes rb)"
    by blast
  have "length (queued rb1) + length xs \<le> length (nodes rb1)"
    using Cons.prems(3) by (simp add: q1 l1)
  from Cons.IH [OF i1 _ this] Cons.prems(2) d1
  obtain rb' where "put_all (Suc k) xs rb1 = Some (map (\<lambda>x. Return None) xs, rb')" "rb_inv rb'"
    "queued rb' = queued rb1 @ xs" "disposed rb' = disposed rb1" "length (nodes rb') = length (nodes rb1)"
    by auto
  then show ?case using p q1 d1 l1 by simp
qed

lemma get_n_ok:
  assumes "rb_inv rb" and "disposed rb \<noteq> 1" and "n \<le> length (queued rb)"
  shows "\<exists>rb'. get_n (Suc k) since n rb =
             Some (map (\<lambda>x. Return (x, None)) (take n (queued rb)), rb') \<and>
           rb_inv rb' \<and> queued rb' = drop n (queued rb) \<and> disposed rb' = disposed rb \<and>
           length (nodes rb') = length (nodes rb)"
  using assms
proof (induction n arbitrary: rb)
  case 0
  then show ?case by simp
next
  case (Suc n)
  from Suc.prems(3) have ne: "0 < unat (tail rb - head rb)" by (simp add: length_queued)
  then have qne: "queued rb \<noteq> []" using length_queued [of rb] by auto
  from Get_nonempty [OF Suc.prems(1) ne Suc.prems(2), of k since]
  obtain rb1 where g: "Get (Suc k) since rb = Some (Return (hd (queued rb), None), rb1)"
    and i1: "rb_inv rb1" and q1: "queued rb1 = tl (queued rb)" and d1: "disposed rb1 = disposed rb"
    and l1: "length (nodes rb1) = length (nodes rb)"
    by blast
  have "n \<le> length (queued rb1)" using Suc.prems(3) by (simp add: q1)
  from Suc.IH [OF i1 _ this] Suc.prems(2) d1
  obtain rb' where r: "get_n (Suc k) since n rb1 =
      Some (map (\<lambda>x. Return (x, None)) (take n (queued rb1)), rb')" "rb_inv rb'"
    "queued rb' = drop n (queued rb1)" "disposed rb' = disposed rb1"
    "length (nodes rb') = length (nodes rb1)"
    by auto
  have "take (Suc n) (queued rb) = hd (queued rb) # take n (tl (queued rb))"
    using qne by (cases "queued rb") simp_all
  moreover have "drop (Suc n) (queued rb) = drop n (tl (queued rb))"
    by (simp add: drop_Suc)
  ultimately show ?case using g r q1 d1 l1 by simp
qed

subsection \<open>What every call and every sequence of calls preserves\<close>

lemma Put_frame:
  assumes "Put fuel item rb = Some (r, rb')"
  shows "disposed rb' = disposed rb \<and> mask_rb rb' = mask_rb rb \<and>
         length (nodes rb') = length (nodes rb) \<and> head rb' = head rb"
proof -
  from Put_SomeD [OF assms] obtain r0 where "put_loop fuel item False (tail rb) rb = Some (r0, rb')"
    by blast
  then show ?thesis by (rule put_loop_frame)
qed

lemma step_frame:
  assumes "step fuel c rb = Some rb'"
  shows "length (nodes rb') = length (nodes rb) \<and> mask_rb rb' = mask_rb rb \<and>
         (disposed rb' = disposed rb \<or> disposed rb = 0 \<and> disposed rb' = 1)"
proof (cases c)
  case (PutC x)
  with assms obtain r where "Put fuel x rb = Some (r, rb')" by auto
  from Put_frame [OF this] show ?thesis by simp
next
  case (OfferC x)
  with assms obtain r where "put_loop fuel x True (tail rb) rb = Some (r, rb')"
    by (auto simp: Offer_def put_def)
  from put_loop_frame [OF this] show ?thesis by simp
next
  case GetC
  with assms obtain r where "poll_loop fuel 0 still 0 (head rb) rb = Some (r, rb')"
    by (auto simp: Get_def Poll_def)
  from poll_loop_frame [OF this] show ?thesis by simp
next
  case (PollC timeout since)
  with assms obtain r where "poll_loop fuel timeout since 0 (head rb) rb = Some (r, rb')"
    by (auto simp: Poll_def)
  from poll_loop_frame [OF this] show ?thesis by simp
next
  case DisposeC
  with assms have "rb' = Dispose rb" by simp
  then show ?thesis by (cases "disposed rb = 0") (simp_all add: Dispose_def)
qed

lemma run_frame:
  assumes "run fuel cs rb = Some rb'"
  shows "length (nodes rb') = length (nodes rb) \<and> mask_rb rb' = mask_rb rb \<and>
         (disposed rb = 1 \<longrightarrow> disposed rb' = 1) \<and>
         (disposed rb = 0 \<longrightarrow> disposed rb' = 0 \<or> disposed rb' = 1)"
  using assms
proof (induction cs arbitrary: rb)
  case Nil
  then show ?case by simp
next
  case (Cons c cs)
  from Cons.prems obtain rb1 where s: "step fuel c rb = Some rb1" and r: "run fuel cs rb1 = Some rb'"
    by (auto split: option.splits)
  from step_frame [OF s] Cons.IH [OF r] show ?case by auto
qed


lemma Dispose_idem: "Dispose (Dispose rb) = Dispose rb"
  by (simp add: Dispose_def)

subsection \<open>A buffer without slots\<close>

lemma put_loop_no_slots:
  assumes "nodes rb = []"
  shows "put_loop (Suc k) item offer t rb =
           (if disposed rb = 1 then Some (Return (False, Some ErrDisposed), rb)
            else Some (Fault IndexOutOfRange, rb))"
  using assms by simp

lemma poll_loop_no_slots:
  assumes "nodes rb = []"
  shows "poll_loop (Suc k) timeout since n pos rb =
           (if disposed rb = 1 then Some (Return (None, Some ErrDisposed), rb)
            else Some (Fault IndexOutOfRange, rb))"
  using assms by simp





subsection \<open>Polls without a timeout\<close>

lemma poll_loop_untimed:
  fixes rb :: "'a RingBuffer"
  assumes "\<not> 0 <s timeout"
  shows "poll_loop k timeout since n pos rb = poll_loop k 0 since' n' pos rb"
  using assms
proof (induction k arbitrary: n n' pos rb)
  case 0
  show ?case by simp
next
  case (Suc k)
  have "poll_loop k timeout since (Suc n) p r = poll_loop k 0 since' (Suc n') p r"
    for p and r :: "'a RingBuffer"
    by (rule Suc.IH [OF Suc.prems])
  with Suc.prems show ?case
    by (simp add: Let_def split: prod.splits switch.splits)
qed

lemma poll_loop_untimed_result:
  assumes "\<not> 0 <s timeout"
  shows "poll_loop k timeout since n pos rb \<noteq> Some (Return (v, Some ErrTimeout), rb')"
  using assms
proof (induction k arbitrary: n pos rb)
  case 0
  show ?case by simp
next
  case (Suc k)
  have "poll_loop k timeout since (Suc n) p r \<noteq> Some (Return (v, Some ErrTimeout), rb')" for p r
    by (rule Suc.IH [OF Suc.prems])
  with Suc.prems show ?case
    by (simp add: Let_def split: prod.splits switch.splits)
qed

lemma poll_loop_untimed_blocks:
  assumes "\<not> 0 <s timeout" and "disposed rb \<noteq> 1"
    and "unat (head rb AND mask_rb rb) < length (nodes rb)"
    and "position (nodes rb ! unat (head rb AND mask_rb rb)) \<noteq> head rb + 1"
  shows "poll_loop k timeout since n (head rb) rb = None"
proof (induction k arbitrary: n)
  case 0
  show ?case by simp
next
  case (Suc k)
  with assms show ?case
    by (simp add: Let_def poll_switch_cases)
qed

lemma not_sless_zero_iff: "\<not> 0 <s (t :: duration) \<longleftrightarrow> t \<le>s 0"
  by (rule signed.not_less)

subsection \<open>Further facts\<close>

lemma get_n_disposed:
  assumes "disposed rb = 1"
  shows "get_n (Suc k) since n rb = Some (replicate n (Return (None, Some ErrDisposed)), rb)"
  using assms by (induction n) (simp_all add: Get_def Poll_def)

lemma queued_Dispose: "queued (Dispose rb) = queued rb"
  by (simp add: queued_def Dispose_def slot_of_def)

lemma roundUp_nonzero_range:
  assumes "roundUp sz \<noteq> 0"
  shows "0 < sz \<and> sz \<le> 2 ^ 63"
proof -
  have "sz \<noteq> 0" using assms roundUp_zero by auto
  moreover have "\<not> 2 ^ 63 < sz" using assms roundUp_overflow by auto
  ultimately show ?thesis by (simp add: word_neq_0_conv not_less)
qed

subsection \<open>A sequence number behind the local counter\<close>

text \<open>No call ends in one of the two panics of the source, in any state.\<close>

lemma put_loop_never_panics:
  "put_loop k item offer t rb \<noteq> Some (Fault (Panic m), rb')"
proof (induction k arbitrary: t rb offer)
  case 0
  show ?case by simp
next
  case (Suc k)
  have "put_loop k item b p r \<noteq> Some (Fault (Panic m), rb')" for b p r
    by (rule Suc.IH)
  then show ?case
    by (simp add: Let_def put_switch_cases)
qed

lemma poll_loop_never_panics:
  "poll_loop k timeout since n pos rb \<noteq> Some (Fault (Panic m), rb')"
proof (induction k arbitrary: n pos rb)
  case 0
  show ?case by simp
next
  case (Suc k)
  have "poll_loop k timeout since (Suc n) p r \<noteq> Some (Fault (Panic m), rb')" for p r
    by (rule Suc.IH)
  then show ?case
    by (simp add: Let_def poll_switch_cases)
qed





subsection \<open>roundUp and the smallest power of two\<close>






subsection \<open>Len and Cap, and counters that wrap\<close>

lemma rb_inv_unat_Cap:
  assumes "rb_inv rb"
  shows "unat (Cap rb) = length (nodes rb)"
  using rb_inv_cap_lt [OF assms] by (simp add: Cap_def unat_of_nat)


lemma Offer_full:
  assumes "rb_inv rb" and "Len rb = Cap rb" and "length (nodes rb) \<noteq> 1" and "\<not> IsDisposed rb"
  shows "Offer (Suc k) item rb = Some (Return (False, None), rb)"
proof -
  from assms(2) have "unat (tail rb - head rb) = length (nodes rb)"
    using rb_inv_unat_Cap [OF assms(1)] by (simp add: Len_def)
  from put_loop_full_offer [OF assms(1) this assms(3)] assms(4) show ?thesis
    by (simp add: Offer_def put_def IsDisposed_def)
qed




section \<open>The claims\<close>

subsection \<open>C1\<close>

text \<open>
  C1, as amended. On a buffer of capacity 4, four puts of \<open>a\<close>, \<open>b\<close>, \<open>c\<close>, \<open>d\<close> succeed.
  After \<^verbatim>\<open>Dispose\<close> the four values are still stored between head and tail, but no get
  delivers them: the first get and every later one return the Disposed failure and leave
  the buffer unchanged, since \<^verbatim>\<open>Poll\<close> tests the disposed flag before it looks at a slot.
\<close>

theorem C1_dispose_keeps_values_from_readers:
  fixes a b c d :: "'a option"
  assumes "Cap (NewRingBuffer sz :: 'a RingBuffer) = 4"
  shows "\<exists>rb. put_all (Suc k) [a, b, c, d] (NewRingBuffer sz) =
                Some ([Return None, Return None, Return None, Return None], rb) \<and>
              queued (Dispose rb) = [a, b, c, d] \<and>
              Get (Suc k) since (Dispose rb) = Some (Return (None, Some ErrDisposed), Dispose rb) \<and>
              get_n (Suc k) since n (Dispose rb) =
                Some (replicate n (Return (None, Some ErrDisposed)), Dispose rb)"
proof -
  from assms have r4: "roundUp sz = 4" by (simp add: Cap_NewRingBuffer)
  then have "roundUp sz \<noteq> 0" by simp
  then have rng: "0 < sz" "sz \<le> 2 ^ 63" using roundUp_nonzero_range by blast+
  have inv: "rb_inv (NewRingBuffer sz :: 'a RingBuffer)" using rng by (rule NewRingBuffer_inv)
  have live: "disposed (NewRingBuffer sz :: 'a RingBuffer) \<noteq> 1" by (simp add: NewRingBuffer_simps)
  have len: "length (nodes (NewRingBuffer sz :: 'a RingBuffer)) = 4"
    by (simp add: NewRingBuffer_length r4)
  have room: "length (queued (NewRingBuffer sz :: 'a RingBuffer)) + length [a, b, c, d]
      \<le> length (nodes (NewRingBuffer sz :: 'a RingBuffer))"
    by (simp add: queued_NewRingBuffer len)
  from put_all_ok [OF inv live room, of k]
  obtain rb where p: "put_all (Suc k) [a, b, c, d] (NewRingBuffer sz) =
      Some (map (\<lambda>x. Return None) [a, b, c, d], rb)"
    and q: "queued rb = queued (NewRingBuffer sz) @ [a, b, c, d]"
    and d: "disposed rb = disposed (NewRingBuffer sz :: 'a RingBuffer)"
    by blast
  from d have "disposed rb = 0" by (simp add: NewRingBuffer_simps)
  then have dd: "disposed (Dispose rb) = 1" by (simp add: Dispose_def)
  have g: "Get (Suc k) since (Dispose rb) = Some (Return (None, Some ErrDisposed), Dispose rb)"
    using dd by (simp add: Get_def Poll_def)
  have "put_all (Suc k) [a, b, c, d] (NewRingBuffer sz) =
          Some ([Return None, Return None, Return None, Return None], rb) \<and>
        queued (Dispose rb) = [a, b, c, d] \<and>
        Get (Suc k) since (Dispose rb) = Some (Return (None, Some ErrDisposed), Dispose rb) \<and>
        get_n (Suc k) since n (Dispose rb) =
          Some (replicate n (Return (None, Some ErrDisposed)), Dispose rb)"
    using p q g get_n_disposed [OF dd, of k since n]
    by (simp add: queued_Dispose queued_NewRingBuffer)
  then show ?thesis by blast
qed

theorem C1_witness:
  "Cap (NewRingBuffer 3 :: nat RingBuffer) = 4 \<and>
   put_all 1 [Some 10, Some 20, Some 30, Some 40] (NewRingBuffer 3 :: nat RingBuffer) =
     Some ([Return None, Return None, Return None, Return None],
       \<lparr>tail = 4, head = 0, mask_rb = 3, disposed = 0,
         nodes = [\<lparr>position = 1, data = Some 10\<rparr>, \<lparr>position = 2, data = Some 20\<rparr>,
                  \<lparr>position = 3, data = Some 30\<rparr>, \<lparr>position = 4, data = Some 40\<rparr>]\<rparr>) \<and>
   get_n 1 still 5
       (Dispose \<lparr>tail = 4, head = 0, mask_rb = 3, disposed = 0,
         nodes = [\<lparr>position = 1, data = Some (10::nat)\<rparr>, \<lparr>position = 2, data = Some 20\<rparr>,
                  \<lparr>position = 3, data = Some 30\<rparr>, \<lparr>position = 4, data = Some 40\<rparr>]\<rparr>) =
     Some (replicate 5 (Return (None, Some ErrDisposed)),
       Dispose \<lparr>tail = 4, head = 0, mask_rb = 3, disposed = 0,
         nodes = [\<lparr>position = 1, data = Some 10\<rparr>, \<lparr>position = 2, data = Some 20\<rparr>,
                  \<lparr>position = 3, data = Some 30\<rparr>, \<lparr>position = 4, data = Some 40\<rparr>]\<rparr>)"
proof -
  let ?R = "\<lparr>tail = 4, head = 0, mask_rb = 3, disposed = 0,
         nodes = [\<lparr>position = 1, data = Some (10::nat)\<rparr>, \<lparr>position = 2, data = Some 20\<rparr>,
                  \<lparr>position = 3, data = Some 30\<rparr>, \<lparr>position = 4, data = Some 40\<rparr>]\<rparr>"
  have c: "Cap (NewRingBuffer 3 :: nat RingBuffer) = 4" by code_simp
  have p: "put_all 1 [Some 10, Some 20, Some 30, Some 40] (NewRingBuffer 3 :: nat RingBuffer) =
     Some ([Return None, Return None, Return None, Return None], ?R)"
    by code_simp
  from C1_dispose_keeps_values_from_readers [OF c, where k = 0 and a = "Some 10" and b = "Some 20"
      and c = "Some 30" and d = "Some 40" and since = still and n = 5]
  obtain rb where "put_all 1 [Some 10, Some 20, Some 30, Some 40] (NewRingBuffer 3 :: nat RingBuffer) =
      Some ([Return None, Return None, Return None, Return None], rb)"
    and g: "get_n 1 still 5 (Dispose rb) = Some (replicate 5 (Return (None, Some ErrDisposed)), Dispose rb)"
    by auto
  with p have "rb = ?R" by simp
  with g c p show ?thesis by simp
qed

theorem C1_counterexample:
  "run 1 [PutC (Some (10::nat)), PutC (Some 20), PutC (Some 30), PutC (Some 40), DisposeC]
       (NewRingBuffer 4) =
     Some \<lparr>tail = 4, head = 0, mask_rb = 3, disposed = 1,
         nodes = [\<lparr>position = 1, data = Some 10\<rparr>, \<lparr>position = 2, data = Some 20\<rparr>,
                  \<lparr>position = 3, data = Some 30\<rparr>, \<lparr>position = 4, data = Some 40\<rparr>]\<rparr> \<and>
   Get 1 still \<lparr>tail = 4, head = 0, mask_rb = 3, disposed = 1,
         nodes = [\<lparr>position = 1, data = Some (10::nat)\<rparr>, \<lparr>position = 2, data = Some 20\<rparr>,
                  \<lparr>position = 3, data = Some 30\<rparr>, \<lparr>position = 4, data = Some 40\<rparr>]\<rparr> =
     Some (Return (None, Some ErrDisposed),
       \<lparr>tail = 4, head = 0, mask_rb = 3, disposed = 1,
         nodes = [\<lparr>position = 1, data = Some 10\<rparr>, \<lparr>position = 2, data = Some 20\<rparr>,
                  \<lparr>position = 3, data = Some 30\<rparr>, \<lparr>position = 4, data = Some 40\<rparr>]\<rparr>)"
  by code_simp

subsection \<open>C2\<close>




subsection \<open>C3\<close>




subsection \<open>C4\<close>

text \<open>
  Where the capacity is at least 2, an offer on a full buffer does what the claim C4 says:
  in every not disposed state that a sequence of calls reaches and in which tail minus
  head equals the capacity, \<^verbatim>\<open>Offer\<close> returns "not accepted" with no error and leaves
  the buffer, and so tail, head and every slot, as it was.
\<close>

lemma offer_on_full_buffer_of_capacity_at_least_2:
  fixes rb :: "'a RingBuffer"
  assumes "run fuel cs (NewRingBuffer sz) = Some rb"
    and "1 < Cap (NewRingBuffer sz :: 'a RingBuffer)"
    and "\<not> IsDisposed rb" and "Len rb = Cap rb"
  shows "Offer (Suc k) item rb = Some (Return (False, None), rb)"
proof -
  from assms(2) have nz: "roundUp sz \<noteq> 0" by (auto simp: Cap_NewRingBuffer)
  then have rng: "0 < sz" "sz \<le> 2 ^ 63" using roundUp_nonzero_range by blast+
  have inv0: "rb_inv (NewRingBuffer sz :: 'a RingBuffer)" using rng by (rule NewRingBuffer_inv)
  from assms(2) have "Cap (NewRingBuffer sz :: 'a RingBuffer) \<noteq> 1" by auto
  then have "unat (Cap (NewRingBuffer sz :: 'a RingBuffer)) \<noteq> 1"
    by (simp add: word_unat_eq_iff)
  then have big: "length (nodes (NewRingBuffer sz :: 'a RingBuffer)) \<noteq> 1"
    by (simp add: rb_inv_unat_Cap [OF inv0])
  from run_inv [OF inv0 big assms(1)] have inv: "rb_inv rb"
    and "length (nodes rb) = length (nodes (NewRingBuffer sz :: 'a RingBuffer))"
    by simp_all
  with big have "length (nodes rb) \<noteq> 1" by simp
  from Offer_full [OF inv assms(4) this assms(3)] show ?thesis .
qed

text \<open>
  C4 at capacity 1. After one put the buffer of capacity 1 is full: tail minus head is 1,
  the capacity. The slot's sequence number is then 1, which is also the tail, so the next
  offer finds the difference 0, takes the slot and returns "accepted": tail moves to 2 and
  the value that was queued is overwritten.
\<close>

theorem C4_offer_on_full_buffer_of_capacity_1:
  "run 1 [PutC (Some (10::nat))] (NewRingBuffer 1) =
     Some \<lparr>tail = 1, head = 0, mask_rb = 0, disposed = 0,
            nodes = [\<lparr>position = 1, data = Some 10\<rparr>]\<rparr> \<and>
   Len \<lparr>tail = 1, head = 0, mask_rb = 0, disposed = 0,
            nodes = [\<lparr>position = 1, data = Some (10::nat)\<rparr>]\<rparr> =
   Cap \<lparr>tail = 1, head = 0, mask_rb = 0, disposed = 0,
            nodes = [\<lparr>position = 1, data = Some (10::nat)\<rparr>]\<rparr> \<and>
   Offer 1 (Some 20) \<lparr>tail = 1, head = 0, mask_rb = 0, disposed = 0,
            nodes = [\<lparr>position = 1, data = Some (10::nat)\<rparr>]\<rparr> =
     Some (Return (True, None),
           \<lparr>tail = 2, head = 0, mask_rb = 0, disposed = 0,
            nodes = [\<lparr>position = 2, data = Some 20\<rparr>]\<rparr>)"
  by code_simp

subsection \<open>C5\<close>

text \<open>
  C5. In a state whose disposed flag is set, each of put, offer, get and poll returns the
  Disposed failure on its first iteration, and the buffer it leaves is the buffer it was
  given: tail, head and every slot are unchanged.
\<close>

theorem C5_disposed_calls_return_Disposed:
  assumes "IsDisposed rb"
  shows "Put (Suc k) item rb = Some (Return (Some ErrDisposed), rb) \<and>
         Offer (Suc k) item rb = Some (Return (False, Some ErrDisposed), rb) \<and>
         Get (Suc k) since rb = Some (Return (None, Some ErrDisposed), rb) \<and>
         Poll (Suc k) timeout since rb = Some (Return (None, Some ErrDisposed), rb)"
  using assms by (simp add: IsDisposed_def Put_def Offer_def put_def Get_def Poll_def)

theorem C5_witness:
  "run 1 [PutC (Some (7::nat)), DisposeC] (NewRingBuffer 2) =
     Some \<lparr>tail = 1, head = 0, mask_rb = 1, disposed = 1,
            nodes = [\<lparr>position = 1, data = Some 7\<rparr>, \<lparr>position = 1, data = None\<rparr>]\<rparr> \<and>
   IsDisposed \<lparr>tail = 1, head = 0, mask_rb = 1, disposed = 1,
            nodes = [\<lparr>position = 1, data = Some (7::nat)\<rparr>, \<lparr>position = 1, data = None\<rparr>]\<rparr> \<and>
   Put 1 (Some 8) \<lparr>tail = 1, head = 0, mask_rb = 1, disposed = 1,
            nodes = [\<lparr>position = 1, data = Some (7::nat)\<rparr>, \<lparr>position = 1, data = None\<rparr>]\<rparr> =
     Some (Return (Some ErrDisposed), \<lparr>tail = 1, head = 0, mask_rb = 1, disposed = 1,
            nodes = [\<lparr>position = 1, data = Some 7\<rparr>, \<lparr>position = 1, data = None\<rparr>]\<rparr>) \<and>
   Poll 1 5 still \<lparr>tail = 1, head = 0, mask_rb = 1, disposed = 1,
            nodes = [\<lparr>position = 1, data = Some (7::nat)\<rparr>, \<lparr>position = 1, data = None\<rparr>]\<rparr> =
     Some (Return (None, Some ErrDisposed), \<lparr>tail = 1, head = 0, mask_rb = 1, disposed = 1,
            nodes = [\<lparr>position = 1, data = Some 7\<rparr>, \<lparr>position = 1, data = None\<rparr>]\<rparr>)"
proof -
  let ?W = "\<lparr>tail = 1, head = 0, mask_rb = 1, disposed = 1,
            nodes = [\<lparr>position = 1, data = Some (7::nat)\<rparr>, \<lparr>position = 1, data = None\<rparr>]\<rparr>"
  have r: "run 1 [PutC (Some (7::nat)), DisposeC] (NewRingBuffer 2) = Some ?W"
    by code_simp
  have d: "IsDisposed ?W" by (simp add: IsDisposed_def)
  from C5_disposed_calls_return_Disposed [OF d, of 0 "Some 8" still 5] r d
  show ?thesis by simp
qed

subsection \<open>C6\<close>

text \<open>
  C6. On a fresh buffer, whatever size was requested, a batch of \<open>N\<close> puts followed by
  \<open>N\<close> gets, with \<open>N\<close> at most the capacity, runs to its end on one thread: every put
  returns with no error, every get returns with no error, and the gets return the values
  in the order in which they were put.
\<close>

theorem C6_fifo_up_to_capacity:
  fixes xs :: "'a option list"
  assumes "length xs \<le> unat (Cap (NewRingBuffer sz :: 'a RingBuffer))"
  shows "\<exists>rb1 rb2.
           put_all (Suc k) xs (NewRingBuffer sz) = Some (map (\<lambda>x. Return None) xs, rb1) \<and>
           get_n (Suc k) since (length xs) rb1 = Some (map (\<lambda>x. Return (x, None)) xs, rb2)"
proof (cases "roundUp sz = 0")
  case True
  with assms have "xs = []" by (simp add: Cap_NewRingBuffer)
  then show ?thesis by simp
next
  case False
  then have rng: "0 < sz" "sz \<le> 2 ^ 63" using roundUp_nonzero_range by blast+
  have inv: "rb_inv (NewRingBuffer sz :: 'a RingBuffer)" using rng by (rule NewRingBuffer_inv)
  have live: "disposed (NewRingBuffer sz :: 'a RingBuffer) \<noteq> 1" by (simp add: NewRingBuffer_simps)
  have room: "length (queued (NewRingBuffer sz :: 'a RingBuffer)) + length xs
      \<le> length (nodes (NewRingBuffer sz :: 'a RingBuffer))"
    using assms by (simp add: queued_NewRingBuffer NewRingBuffer_length Cap_NewRingBuffer)
  from put_all_ok [OF inv live room, of k]
  obtain rb1 where p: "put_all (Suc k) xs (NewRingBuffer sz) = Some (map (\<lambda>x. Return None) xs, rb1)"
    and i1: "rb_inv rb1" and q1: "queued rb1 = queued (NewRingBuffer sz) @ xs"
    and d1: "disposed rb1 = disposed (NewRingBuffer sz :: 'a RingBuffer)"
    by blast
  from d1 live have live1: "disposed rb1 \<noteq> 1" by simp
  from q1 have q: "queued rb1 = xs" by (simp add: queued_NewRingBuffer)
  then have "length xs \<le> length (queued rb1)" by simp
  from get_n_ok [OF i1 live1 this, of k since]
  obtain rb2 where "get_n (Suc k) since (length xs) rb1 =
      Some (map (\<lambda>x. Return (x, None)) (take (length xs) (queued rb1)), rb2)"
    by blast
  with q have "get_n (Suc k) since (length xs) rb1 = Some (map (\<lambda>x. Return (x, None)) xs, rb2)"
    by simp
  with p show ?thesis by blast
qed

theorem C6_witness:
  "length [Some (10::nat), None, Some 30] \<le> unat (Cap (NewRingBuffer 3 :: nat RingBuffer)) \<and>
   put_all 1 [Some (10::nat), None, Some 30] (NewRingBuffer 3) =
     Some ([Return None, Return None, Return None],
       \<lparr>tail = 3, head = 0, mask_rb = 3, disposed = 0,
         nodes = [\<lparr>position = 1, data = Some 10\<rparr>, \<lparr>position = 2, data = None\<rparr>,
                  \<lparr>position = 3, data = Some 30\<rparr>, \<lparr>position = 3, data = None\<rparr>]\<rparr>) \<and>
   get_n 1 still 3
       \<lparr>tail = 3, head = 0, mask_rb = 3, disposed = 0,
         nodes = [\<lparr>position = 1, data = Some (10::nat)\<rparr>, \<lparr>position = 2, data = None\<rparr>,
                  \<lparr>position = 3, data = Some 30\<rparr>, \<lparr>position = 3, data = None\<rparr>]\<rparr> =
     Some ([Return (Some 10, None), Return (None, None), Return (Some 30, None)],
       \<lparr>tail = 3, head = 3, mask_rb = 3, disposed = 0,
         nodes = [\<lparr>position = 4, data = None\<rparr>, \<lparr>position = 5, data = None\<rparr>,
                  \<lparr>position = 6, data = None\<rparr>, \<lparr>position = 3, data = None\<rparr>]\<rparr>)"
proof -
  have l: "length [Some (10::nat), None, Some 30] \<le> unat (Cap (NewRingBuffer 3 :: nat RingBuffer))"
    by code_simp
  have p: "put_all 1 [Some (10::nat), None, Some 30] (NewRingBuffer 3) =
     Some ([Return None, Return None, Return None],
       \<lparr>tail = 3, head = 0, mask_rb = 3, disposed = 0,
         nodes = [\<lparr>position = 1, data = Some 10\<rparr>, \<lparr>position = 2, data = None\<rparr>,
                  \<lparr>position = 3, data = Some 30\<rparr>, \<lparr>position = 3, data = None\<rparr>]\<rparr>)"
    by code_simp
  have g: "get_n 1 still 3
       \<lparr>tail = 3, head = 0, mask_rb = 3, disposed = 0,
         nodes = [\<lparr>position = 1, data = Some (10::nat)\<rparr>, \<lparr>position = 2, data = None\<rparr>,
                  \<lparr>position = 3, data = Some 30\<rparr>, \<lparr>position = 3, data = None\<rparr>]\<rparr> =
     Some ([Return (Some 10, None), Return (None, None), Return (Some 30, None)],
       \<lparr>tail = 3, head = 3, mask_rb = 3, disposed = 0,
         nodes = [\<lparr>position = 4, data = None\<rparr>, \<lparr>position = 5, data = None\<rparr>,
                  \<lparr>position = 6, data = None\<rparr>, \<lparr>position = 3, data = None\<rparr>]\<rparr>)"
    by code_simp
  from C6_fifo_up_to_capacity [OF l, of 0 still]
  obtain rb1 rb2 where a: "put_all (Suc 0) [Some (10::nat), None, Some 30] (NewRingBuffer 3) =
        Some (map (\<lambda>x. Return None) [Some (10::nat), None, Some 30], rb1)"
    and b: "get_n (Suc 0) still (length [Some (10::nat), None, Some 30]) rb1 =
        Some (map (\<lambda>x. Return (x, None)) [Some (10::nat), None, Some 30], rb2)"
    by blast
  from a p have "rb1 = \<lparr>tail = 3, head = 0, mask_rb = 3, disposed = 0,
         nodes = [\<lparr>position = 1, data = Some 10\<rparr>, \<lparr>position = 2, data = None\<rparr>,
                  \<lparr>position = 3, data = Some 30\<rparr>, \<lparr>position = 3, data = None\<rparr>]\<rparr>"
    by (simp del: put_all.simps)
  with b g have "rb2 = \<lparr>tail = 3, head = 3, mask_rb = 3, disposed = 0,
         nodes = [\<lparr>position = 4, data = None\<rparr>, \<lparr>position = 5, data = None\<rparr>,
                  \<lparr>position = 6, data = None\<rparr>, \<lparr>position = 3, data = None\<rparr>]\<rparr>"
    by (simp del: get_n.simps add: numeral_3_eq_3)
  with l p g show ?thesis by (simp only:)
qed

subsection \<open>C7\<close>

text \<open>
  C7. \<^verbatim>\<open>Get\<close> is \<^verbatim>\<open>Poll(0)\<close>. For a timeout that is not positive, \<^verbatim>\<open>Poll\<close> never reads
  the clock: it does what \<^verbatim>\<open>Get\<close> does whatever the clock says, it never returns the
  Timeout failure, and while the buffer is not disposed and the slot at the head is not
  published it does not return, however many iterations it is given.
\<close>

theorem C7_get_is_untimed_poll:
  assumes "timeout \<le>s 0"
  shows "Get fuel since rb = Poll fuel 0 since rb \<and>
         Poll fuel timeout since rb = Get fuel since' rb \<and>
         Poll fuel timeout since rb \<noteq> Some (Return (v, Some ErrTimeout), rb') \<and>
         (disposed rb \<noteq> 1 \<and> unat (head rb AND mask_rb rb) < length (nodes rb) \<and>
          position (nodes rb ! unat (head rb AND mask_rb rb)) \<noteq> head rb + 1 \<longrightarrow>
            Poll fuel timeout since rb = None)"
proof -
  from assms have nt: "\<not> 0 <s timeout" by (simp add: not_sless_zero_iff)
  have "Poll fuel timeout since rb = Get fuel since' rb"
    unfolding Get_def Poll_def by (rule poll_loop_untimed [OF nt])
  moreover have "Poll fuel timeout since rb \<noteq> Some (Return (v, Some ErrTimeout), rb')"
    unfolding Poll_def by (rule poll_loop_untimed_result [OF nt])
  moreover have "Poll fuel timeout since rb = None"
    if "disposed rb \<noteq> 1" "unat (head rb AND mask_rb rb) < length (nodes rb)"
      "position (nodes rb ! unat (head rb AND mask_rb rb)) \<noteq> head rb + 1"
    unfolding Poll_def by (rule poll_loop_untimed_blocks [OF nt that])
  ultimately show ?thesis by (simp add: Get_def)
qed

theorem C7_witness:
  "(- 5 :: duration) \<le>s 0 \<and>
   Poll 3 (- 5) (\<lambda>n. 100) (NewRingBuffer 2 :: nat RingBuffer) = Get 3 still (NewRingBuffer 2) \<and>
   Poll 3 (- 5) (\<lambda>n. 100) (NewRingBuffer 2 :: nat RingBuffer) = None \<and>
   Poll 3 5 (\<lambda>n. 100) (NewRingBuffer 2 :: nat RingBuffer) =
     Some (Return (None, Some ErrTimeout), NewRingBuffer 2)"
proof -
  have h: "(- 5 :: duration) \<le>s 0" by (simp add: word_sle_eq)
  have n: "(NewRingBuffer 2 :: nat RingBuffer) =
      \<lparr>tail = 0, head = 0, mask_rb = 1, disposed = 0,
        nodes = [\<lparr>position = 0, data = None\<rparr>, \<lparr>position = 1, data = None\<rparr>]\<rparr>"
    by code_simp
  have t: "Poll 3 5 (\<lambda>n. 100) (NewRingBuffer 2 :: nat RingBuffer) =
     Some (Return (None, Some ErrTimeout), NewRingBuffer 2)"
    unfolding n by (simp add: Poll_def poll_switch_cases numeral_3_eq_3 word_sle_eq word_sless_alt)
  note T = C7_get_is_untimed_poll [OF h, where fuel = 3 and since = "\<lambda>n. 100" and since' = still
      and rb = "NewRingBuffer 2 :: nat RingBuffer" and v = None
      and rb' = "NewRingBuffer 2 :: nat RingBuffer"]
  have pre: "disposed (NewRingBuffer 2 :: nat RingBuffer) \<noteq> 1 \<and>
      unat (head (NewRingBuffer 2 :: nat RingBuffer) AND mask_rb (NewRingBuffer 2 :: nat RingBuffer))
        < length (nodes (NewRingBuffer 2 :: nat RingBuffer)) \<and>
      position (nodes (NewRingBuffer 2 :: nat RingBuffer) !
        unat (head (NewRingBuffer 2 :: nat RingBuffer) AND mask_rb (NewRingBuffer 2 :: nat RingBuffer)))
        \<noteq> head (NewRingBuffer 2 :: nat RingBuffer) + 1"
    unfolding n by simp
  from T have "Poll 3 (- 5) (\<lambda>n. 100) (NewRingBuffer 2 :: nat RingBuffer) = Get 3 still (NewRingBuffer 2)"
    by blast
  moreover from T pre have "Poll 3 (- 5) (\<lambda>n. 100) (NewRingBuffer 2 :: nat RingBuffer) = None"
    by blast
  ultimately show ?thesis using h t by blast
qed

subsection \<open>C8\<close>




subsection \<open>C9\<close>

text \<open>
  C9. In every state that a sequence of calls reaches from a fresh buffer, \<^verbatim>\<open>Dispose\<close>
  changes the disposed flag alone (to 1) and nothing of tail, head, mask and slots; a
  second \<^verbatim>\<open>Dispose\<close> changes nothing; \<^verbatim>\<open>IsDisposed\<close> holds right after it and in
  every state reached from there by further calls.
\<close>

theorem C9_dispose_sets_only_the_flag:
  assumes "run fuel cs (NewRingBuffer sz) = Some rb"
  shows "Dispose rb = rb\<lparr>disposed := 1\<rparr> \<and>
         Dispose (Dispose rb) = Dispose rb \<and>
         IsDisposed (Dispose rb) \<and>
         (run fuel' cs' (Dispose rb) = Some rb' \<longrightarrow> IsDisposed rb')"
proof -
  from run_frame [OF assms] have d: "disposed rb = 0 \<or> disposed rb = 1"
    by (simp add: NewRingBuffer_simps)
  then have eq: "Dispose rb = rb\<lparr>disposed := 1\<rparr>"
    by (auto simp: Dispose_def)
  then have isd: "IsDisposed (Dispose rb)" by (simp add: IsDisposed_def)
  have "IsDisposed rb'" if "run fuel' cs' (Dispose rb) = Some rb'"
    using run_frame [OF that] isd by (simp add: IsDisposed_def)
  then show ?thesis using eq isd Dispose_idem [of rb] by blast
qed

theorem C9_witness:
  "run 1 [PutC (Some (7::nat))] (NewRingBuffer 2) =
     Some \<lparr>tail = 1, head = 0, mask_rb = 1, disposed = 0,
            nodes = [\<lparr>position = 1, data = Some 7\<rparr>, \<lparr>position = 1, data = None\<rparr>]\<rparr> \<and>
   Dispose \<lparr>tail = 1, head = 0, mask_rb = 1, disposed = 0,
            nodes = [\<lparr>position = 1, data = Some (7::nat)\<rparr>, \<lparr>position = 1, data = None\<rparr>]\<rparr> =
     \<lparr>tail = 1, head = 0, mask_rb = 1, disposed = 1,
            nodes = [\<lparr>position = 1, data = Some 7\<rparr>, \<lparr>position = 1, data = None\<rparr>]\<rparr> \<and>
   run 1 [GetC, DisposeC, OfferC (Some 8)]
       (Dispose \<lparr>tail = 1, head = 0, mask_rb = 1, disposed = 0,
            nodes = [\<lparr>position = 1, data = Some (7::nat)\<rparr>, \<lparr>position = 1, data = None\<rparr>]\<rparr>) =
     Some \<lparr>tail = 1, head = 0, mask_rb = 1, disposed = 1,
            nodes = [\<lparr>position = 1, data = Some 7\<rparr>, \<lparr>position = 1, data = None\<rparr>]\<rparr> \<and>
   IsDisposed \<lparr>tail = 1, head = 0, mask_rb = 1, disposed = 1,
            nodes = [\<lparr>position = 1, data = Some (7::nat)\<rparr>, \<lparr>position = 1, data = None\<rparr>]\<rparr>"
proof -
  let ?A = "\<lparr>tail = 1, head = 0, mask_rb = 1, disposed = 0,
            nodes = [\<lparr>position = 1, data = Some (7::nat)\<rparr>, \<lparr>position = 1, data = None\<rparr>]\<rparr>"
  let ?B = "\<lparr>tail = 1, head = 0, mask_rb = 1, disposed = 1,
            nodes = [\<lparr>position = 1, data = Some (7::nat)\<rparr>, \<lparr>position = 1, data = None\<rparr>]\<rparr>"
  have r: "run 1 [PutC (Some (7::nat))] (NewRingBuffer 2) = Some ?A"
    by code_simp
  have d: "Dispose ?A = ?B" by (simp add: Dispose_def)
  have r2: "run 1 [GetC, DisposeC, OfferC (Some 8)] (Dispose ?A) = Some ?B"
    by code_simp
  from C9_dispose_sets_only_the_flag [OF r, of 1 "[GetC, DisposeC, OfferC (Some 8)]" ?B] r d r2
  show ?thesis by simp
qed

subsection \<open>C10\<close>

text \<open>
  C10, as amended. A buffer constructed with requested size 0 has no slot (\<^verbatim>\<open>Cap\<close> is 0)
  and its mask is \<open>2 ^ 64 - 1\<close>, in every state that a sequence of calls reaches. While it
  is not disposed, each put, offer, get and poll faults on the slot index, which is out of
  range, and leaves the buffer as it was. Once it is disposed, each of them returns the
  Disposed failure instead: the disposed flag is tested before the slot is indexed.
\<close>

theorem C10_size_zero_buffer:
  assumes "run fuel cs (NewRingBuffer 0) = Some rb"
  shows "nodes rb = [] \<and> Cap rb = 0 \<and> unat (mask_rb rb) = 2 ^ 64 - 1 \<and>
         (if IsDisposed rb
          then Put (Suc k) item rb = Some (Return (Some ErrDisposed), rb) \<and>
               Offer (Suc k) item rb = Some (Return (False, Some ErrDisposed), rb) \<and>
               Get (Suc k) since rb = Some (Return (None, Some ErrDisposed), rb) \<and>
               Poll (Suc k) timeout since rb = Some (Return (None, Some ErrDisposed), rb)
          else Put (Suc k) item rb = Some (Fault IndexOutOfRange, rb) \<and>
               Offer (Suc k) item rb = Some (Fault IndexOutOfRange, rb) \<and>
               Get (Suc k) since rb = Some (Fault IndexOutOfRange, rb) \<and>
               Poll (Suc k) timeout since rb = Some (Fault IndexOutOfRange, rb))"
proof -
  have e: "nodes (NewRingBuffer 0 :: 'a RingBuffer) = []"
    and m: "mask_rb (NewRingBuffer 0 :: 'a RingBuffer) = - 1"
    using NewRingBuffer_empty [of 0] by blast+
  from run_frame [OF assms] have n: "nodes rb = []" and mk: "mask_rb rb = - 1"
    by (simp_all add: e m)
  have u: "unat (mask_rb rb) = 2 ^ 64 - 1"
    by (simp add: mk unsigned_minus_1_eq_mask mask_eq_exp_minus_1)
  have c: "Cap rb = 0" by (simp add: Cap_def n)
  have calls: "if IsDisposed rb
          then Put (Suc k) item rb = Some (Return (Some ErrDisposed), rb) \<and>
               Offer (Suc k) item rb = Some (Return (False, Some ErrDisposed), rb) \<and>
               Get (Suc k) since rb = Some (Return (None, Some ErrDisposed), rb) \<and>
               Poll (Suc k) timeout since rb = Some (Return (None, Some ErrDisposed), rb)
          else Put (Suc k) item rb = Some (Fault IndexOutOfRange, rb) \<and>
               Offer (Suc k) item rb = Some (Fault IndexOutOfRange, rb) \<and>
               Get (Suc k) since rb = Some (Fault IndexOutOfRange, rb) \<and>
               Poll (Suc k) timeout since rb = Some (Fault IndexOutOfRange, rb)"
    using n by (simp add: IsDisposed_def Put_def Offer_def put_def Get_def Poll_def)
  from n c u calls show ?thesis by (intro conjI)
qed

theorem C10_witness:
  "run 1 [PutC (Some (7::nat)), GetC] (NewRingBuffer 0) = Some (NewRingBuffer 0) \<and>
   Cap (NewRingBuffer 0 :: nat RingBuffer) = 0 \<and>
   mask_rb (NewRingBuffer 0 :: nat RingBuffer) = 18446744073709551615 \<and>
   Put 1 (Some 7) (NewRingBuffer 0 :: nat RingBuffer) = Some (Fault IndexOutOfRange, NewRingBuffer 0) \<and>
   Poll 1 5 still (NewRingBuffer 0 :: nat RingBuffer) = Some (Fault IndexOutOfRange, NewRingBuffer 0)"
proof -
  have n: "(NewRingBuffer 0 :: nat RingBuffer) =
      \<lparr>tail = 0, head = 0, mask_rb = 18446744073709551615, disposed = 0, nodes = []\<rparr>"
    by code_simp
  have r: "run 1 [PutC (Some (7::nat)), GetC] (NewRingBuffer 0) = Some (NewRingBuffer 0)"
    by code_simp
  have d: "\<not> IsDisposed (NewRingBuffer 0 :: nat RingBuffer)"
    by (simp add: n IsDisposed_def)
  from C10_size_zero_buffer [OF r, where k = 0 and item = "Some 7" and since = still and timeout = 5] d
  have "Cap (NewRingBuffer 0 :: nat RingBuffer) = 0 \<and>
        Put 1 (Some 7) (NewRingBuffer 0 :: nat RingBuffer) = Some (Fault IndexOutOfRange, NewRingBuffer 0) \<and>
        Poll 1 5 still (NewRingBuffer 0 :: nat RingBuffer) = Some (Fault IndexOutOfRange, NewRingBuffer 0)"
    by simp
  moreover have "mask_rb (NewRingBuffer 0 :: nat RingBuffer) = 18446744073709551615"
    by (simp add: n)
  ultimately show ?thesis using r by blast
qed

theorem C10_counterexample:
  "run 1 [DisposeC] (NewRingBuffer 0 :: nat RingBuffer) =
     Some \<lparr>tail = 0, head = 0, mask_rb = 18446744073709551615, disposed = 1, nodes = []\<rparr> \<and>
   Put 1 (Some (7::nat)) \<lparr>tail = 0, head = 0, mask_rb = 18446744073709551615, disposed = 1, nodes = []\<rparr> =
     Some (Return (Some ErrDisposed),
           \<lparr>tail = 0, head = 0, mask_rb = 18446744073709551615, disposed = 1, nodes = []\<rparr>) \<and>
   Get 1 still \<lparr>tail = 0, head = 0, mask_rb = 18446744073709551615, disposed = 1, nodes = []\<rparr> =
     Some (Return (None, Some ErrDisposed),
           \<lparr>tail = 0, head = 0, mask_rb = 18446744073709551615, disposed = 1, nodes = [] :: nat node list\<rparr>)"
  by code_simp

end
